theory Spec2Isabelle
  imports Main
begin

section \<open>JavaScript values, objects and the heap\<close>

text \<open>
  The loader of \<^verbatim>\<open>ssrModuleLoader.ts\<close> works on JavaScript objects that are shared by
  reference: export namespaces are compared by identity, re-exports read their source
  at access time, and the interop wrapper of \<^verbatim>\<open>nodeRequire\<close> is a \<^verbatim>\<open>Proxy\<close>. Objects
  therefore live in an explicit heap (a list; an address is an index, allocation appends).
\<close>

type_synonym addr = nat

datatype js_value = Undefined | Null | Bool bool | Num int | Str string | Ref addr

datatype js_error = Error string | TypeError string | RangeError string | Thrown js_value

text \<open>Property keys: strings, and the one symbol the loader uses (\<^verbatim>\<open>Symbol.toStringTag\<close>).\<close>

datatype prop_key = KStr string | KToStringTag

text \<open>
  The only accessor the loader installs is the one of \<^verbatim>\<open>ssrExportAll\<close>:
  \<^verbatim>\<open>get() { return sourceModule[key] }\<close>, a closure over the source and the key:
  \<open>ReadThrough src key\<close> when the source is the object at \<open>src\<close>, and \<open>ReadChar str i\<close> when
  the source is the string primitive \<open>str\<close> and the key its index \<open>i\<close>.
\<close>

datatype getter = ReadThrough addr string | ReadChar string nat

text \<open>
  A property slot with its attributes: \<open>Data value writable enumerable configurable\<close> or
  \<open>Accessor getter enumerable configurable\<close>.
\<close>

datatype slot = Data js_value bool bool bool | Accessor getter bool bool

text \<open>
  An ordinary object is its own properties in creation order and its extensible flag
  (prototype chains are left out: the objects here are plain records of exports).
  \<open>InteropProxy target defaultExport\<close> is the value of
  \<^verbatim>\<open>new Proxy(mod, { get(mod, prop) { if (prop === 'default') return defaultExport; return mod[prop] } })\<close>.
\<close>

datatype heap_obj = Plain "(prop_key \<times> slot) list" bool | InteropProxy addr js_value

type_synonym heap = "heap_obj list"

fun truthy :: "js_value \<Rightarrow> bool" where
  "truthy Undefined = False"
| "truthy Null = False"
| "truthy (Bool b) = b"
| "truthy (Num n) = (n \<noteq> 0)"
| "truthy (Str s) = (s \<noteq> [])"
| "truthy (Ref a) = True"

fun slot_enumerable :: "slot \<Rightarrow> bool" where
  "slot_enumerable (Data v w e c) = e"
| "slot_enumerable (Accessor g e c) = e"

fun slot_configurable :: "slot \<Rightarrow> bool" where
  "slot_configurable (Data v w e c) = c"
| "slot_configurable (Accessor g e c) = c"

text \<open>
  \<open>own_property\<close> is the internal method [[GetOwnProperty]]: the property an object holds
  under a key. The wrapper of \<^verbatim>\<open>nodeRequire\<close> has no \<^verbatim>\<open>getOwnPropertyDescriptor\<close> trap, so it
  shows the property of its target, a wrapper of a wrapper that of the target's target,
  within the depth of calls the engine allows (the first argument).
\<close>

fun own_property :: "nat \<Rightarrow> heap \<Rightarrow> addr \<Rightarrow> prop_key \<Rightarrow> js_error + slot option" where
  "own_property 0 h a k = Inl (RangeError ''Maximum call stack size exceeded'')"
| "own_property (Suc n) h a k =
     (if a < length h then
        (case h ! a of
           Plain ps ext \<Rightarrow> Inr (map_of ps k)
         | InteropProxy target d \<Rightarrow> own_property n h target k)
      else Inr None)"

text \<open>
  The platform checks what a \<^verbatim>\<open>get\<close> trap answers against the property the target shows
  under the key: when that is a data property that is neither writable nor configurable, an
  answer other than the property's value is refused with a \<^verbatim>\<open>TypeError\<close> (ECMAScript, the
  invariants of a proxy's [[Get]]).
\<close>

definition trap_refused :: "slot option \<Rightarrow> js_value \<Rightarrow> bool" where
  "trap_refused desc answer =
     (case desc of
        Some (Data v w e c) \<Rightarrow> \<not> w \<and> \<not> c \<and> v \<noteq> answer
      | _ \<Rightarrow> False)"

text \<open>
  Reading \<^verbatim>\<open>obj[key]\<close>. An accessor calls its getter, which reads its source, and a
  proxy calls its \<^verbatim>\<open>get\<close> trap, which reads the target, so a read nests calls; JavaScript
  ends a nesting deeper than the engine's call stack with a \<^verbatim>\<open>RangeError\<close>. The first
  argument is the number of nested calls the engine still allows. An address outside the
  heap denotes no object: reading through it is the \<^verbatim>\<open>TypeError\<close> of reading a property
  of \<^verbatim>\<open>undefined\<close>. For a key other than \<^verbatim>\<open>default\<close> the trap of the wrapper answers with the
  target's own value, which the platform never refuses. An index of a string primitive reads
  the character there.
\<close>

fun js_get :: "nat \<Rightarrow> heap \<Rightarrow> addr \<Rightarrow> prop_key \<Rightarrow> js_error + js_value" where
  "js_get 0 h a k = Inl (RangeError ''Maximum call stack size exceeded'')"
| "js_get (Suc n) h a k =
     (if a < length h then
        (case h ! a of
           Plain ps ext \<Rightarrow>
             (case map_of ps k of
                None \<Rightarrow> Inr Undefined
              | Some (Data v w e c) \<Rightarrow> Inr v
              | Some (Accessor (ReadThrough src key) e c) \<Rightarrow> js_get n h src (KStr key)
              | Some (Accessor (ReadChar str i) e c) \<Rightarrow>
                  Inr (if i < length str then Str [str ! i] else Undefined))
         | InteropProxy target d \<Rightarrow>
             (if k = KStr ''default'' then
                (case own_property n h target k of
                   Inl e \<Rightarrow> Inl e
                 | Inr desc \<Rightarrow>
                     (if trap_refused desc d
                      then Inl (TypeError ''get on proxy: the trap did not return the actual value'')
                      else Inr d))
              else js_get n h target k))
      else Inl (TypeError ''Cannot read properties of undefined''))"

text \<open>
  The order of the own string keys of an object (ECMAScript, OrdinaryOwnPropertyKeys): the
  array indices first, in ascending numeric order, then the other keys in creation order.
  An array index is the decimal numeral, without leading zeros, of a number below
  \<open>2^32 - 1\<close>.
\<close>

definition is_digit :: "char \<Rightarrow> bool" where
  "is_digit c = (c \<in> set ''0123456789'')"

definition index_value :: "string \<Rightarrow> nat" where
  "index_value k = foldl (\<lambda>n c. 10 * n + (of_char c - 48)) 0 k"

definition array_index :: "string \<Rightarrow> bool" where
  "array_index k =
     (k \<noteq> [] \<and> list_all is_digit k \<and> (k = ''0'' \<or> hd k \<noteq> CHR ''0'') \<and>
      index_value k < 4294967295)"

definition key_order :: "string list \<Rightarrow> string list" where
  "key_order ks = sort_key index_value (filter array_index ks) @ filter (\<lambda>k. \<not> array_index k) ks"

text \<open>
  The keys a \<^verbatim>\<open>for (const key in obj)\<close> loop visits: the enumerable string keys, in the
  order of the own keys; symbols are never visited. A proxy without an \<^verbatim>\<open>ownKeys\<close> trap shows
  the keys of its target, a proxy of a proxy those of the target's target, within the depth
  of calls the engine allows.
\<close>

fun enumerable_keys :: "(prop_key \<times> slot) list \<Rightarrow> string list" where
  "enumerable_keys [] = []"
| "enumerable_keys ((KStr k, sl) # ps) =
     (if slot_enumerable sl then k # enumerable_keys ps else enumerable_keys ps)"
| "enumerable_keys ((KToStringTag, sl) # ps) = enumerable_keys ps"

fun forInKeys :: "nat \<Rightarrow> heap \<Rightarrow> addr \<Rightarrow> js_error + string list" where
  "forInKeys 0 h a = Inl (RangeError ''Maximum call stack size exceeded'')"
| "forInKeys (Suc n) h a =
     (if a < length h then
        (case h ! a of
           Plain ps ext \<Rightarrow> Inr (key_order (enumerable_keys ps))
         | InteropProxy target d \<Rightarrow> forInKeys n h target)
      else Inr [])"

text \<open>Replace the slot of a key in place, or append it when the key is new.\<close>

fun put_slot :: "prop_key \<Rightarrow> slot \<Rightarrow> (prop_key \<times> slot) list \<Rightarrow> (prop_key \<times> slot) list" where
  "put_slot k sl [] = [(k, sl)]"
| "put_slot k sl ((k', sl') # ps) =
     (if k = k' then (k, sl) # ps else (k', sl') # put_slot k sl ps)"

text \<open>
  \<^verbatim>\<open>Object.defineProperty(obj, key, desc)\<close> on an ordinary object, for a descriptor with
  every attribute given (ECMAScript ValidateAndApplyPropertyDescriptor): a new key needs an
  extensible object; a configurable property is replaced; a non-configurable one admits no
  change of \<open>configurable\<close>, \<open>enumerable\<close>, of its kind or of its getter, and a change of
  value only while it is writable. Every refusal is a \<^verbatim>\<open>TypeError\<close>.
\<close>

fun slot_change_allowed :: "slot \<Rightarrow> slot \<Rightarrow> bool" where
  "slot_change_allowed (Data v w e c) (Data v' w' e' c') =
     (c \<or> (\<not> c' \<and> e' = e \<and> (w \<or> (\<not> w' \<and> v' = v))))"
| "slot_change_allowed (Accessor g e c) (Accessor g' e' c') =
     (c \<or> (\<not> c' \<and> e' = e \<and> g' = g))"
| "slot_change_allowed (Data v w e c) (Accessor g' e' c') = c"
| "slot_change_allowed (Accessor g e c) (Data v' w' e' c') = c"

definition defineProperty :: "heap \<Rightarrow> addr \<Rightarrow> prop_key \<Rightarrow> slot \<Rightarrow> js_error + heap" where
  "defineProperty h a k desc =
     (if a < length h then
        (case h ! a of
           Plain ps ext \<Rightarrow>
             (case map_of ps k of
                None \<Rightarrow>
                  (if ext then Inr (h[a := Plain (put_slot k desc ps) ext])
                   else Inl (TypeError ''Cannot define property, object is not extensible''))
              | Some cur \<Rightarrow>
                  (if slot_change_allowed cur desc
                   then Inr (h[a := Plain (put_slot k desc ps) ext])
                   else Inl (TypeError ''Cannot redefine property'')))
         | InteropProxy target d \<Rightarrow>
             Inl (TypeError ''Object.defineProperty called on a wrapped module''))
      else Inl (TypeError ''Object.defineProperty called on non-object''))"

text \<open>\<^verbatim>\<open>Object.freeze\<close> and \<^verbatim>\<open>Object.isFrozen\<close> on an ordinary object.\<close>

fun freeze_slot :: "slot \<Rightarrow> slot" where
  "freeze_slot (Data v w e c) = Data v False e False"
| "freeze_slot (Accessor g e c) = Accessor g e False"

fun slot_frozen :: "slot \<Rightarrow> bool" where
  "slot_frozen (Data v w e c) = (\<not> w \<and> \<not> c)"
| "slot_frozen (Accessor g e c) = (\<not> c)"

fun freeze_obj :: "heap_obj \<Rightarrow> heap_obj" where
  "freeze_obj (Plain ps ext) = Plain (map (\<lambda>(k, sl). (k, freeze_slot sl)) ps) False"
| "freeze_obj (InteropProxy target d) = InteropProxy target d"

fun obj_frozen :: "heap_obj \<Rightarrow> bool" where
  "obj_frozen (Plain ps ext) = (\<not> ext \<and> list_all (\<lambda>(k, sl). slot_frozen sl) ps)"
| "obj_frozen (InteropProxy target d) = False"

definition isFrozen :: "heap \<Rightarrow> addr \<Rightarrow> bool" where
  "isFrozen h a = (a < length h \<and> obj_frozen (h ! a))"

definition freeze :: "heap \<Rightarrow> addr \<Rightarrow> heap" where
  "freeze h a = (if a < length h then h[a := freeze_obj (h ! a)] else h)"

section \<open>Module code and the collaborators of the loader\<close>

text \<open>
  The transformed code of a module is run by \<^verbatim>\<open>new Function(...)\<close> with the binding surface
  as arguments. It is modelled by what it does with that surface, as a tree: call
  \<^verbatim>\<open>__vite_ssr_import__(dep)\<close> and go on with what the call returned or threw, call
  \<^verbatim>\<open>__vite_ssr_exportAll__(v)\<close> and go on with the error it threw if any, assign
  \<^verbatim>\<open>__vite_ssr_exports__[key] = v\<close>, throw, or finish. A call of
  \<^verbatim>\<open>__vite_ssr_dynamic_import__\<close> only makes a promise while the code runs: the load it asks
  for is a request of its own, one of the interleaved requests of the last section.
\<close>

datatype body =
    Done
  | Throw js_error
  | Import string "js_error + js_value \<Rightarrow> body"
  | ExportAll js_value "js_error option \<Rightarrow> body"
  | Assign string js_value body

record transform_result =
  code :: body
  deps :: "string list"

text \<open>
  What the loader imports from the rest of the server and from the platform, as parameters:
  \<^verbatim>\<open>unwrapId\<close>, \<^verbatim>\<open>cleanUrl\<close> and \<^verbatim>\<open>resolveFrom\<close> of \<^verbatim>\<open>../utils\<close>, \<^verbatim>\<open>transformRequest\<close>,
  \<^verbatim>\<open>fs.existsSync\<close>, \<^verbatim>\<open>path.dirname\<close>, Node's \<^verbatim>\<open>require\<close>, \<^verbatim>\<open>server.config.root\<close>, the
  file a new module node gets from the module graph, and the depth of nested calls the
  engine allows (\<open>callDepth\<close>). \<^verbatim>\<open>resolveFrom\<close> and \<^verbatim>\<open>require\<close> throw
  when they find nothing; \<^verbatim>\<open>transformRequest\<close> may reject, or resolve to no result.
  \<^verbatim>\<open>ssrRewriteStacktrace\<close> of \<^verbatim>\<open>./ssrStacktrace\<close> is given the value of \<^verbatim>\<open>e.stack\<close> and returns
  a text or throws; \<open>errorStack\<close> is the trace the engine recorded in an error object it made.
\<close>

record env =
  unwrapId :: "string \<Rightarrow> string"
  transformRequest :: "string \<Rightarrow> js_error + transform_result option"
  callDepth :: nat
  existsSync :: "string \<Rightarrow> bool"
  cleanUrl :: "string \<Rightarrow> string"
  dirname :: "string \<Rightarrow> string"
  resolveFrom :: "string \<Rightarrow> string \<Rightarrow> js_error + string"
  require :: "string \<Rightarrow> js_error + js_value"
  config_root :: string
  fileOfUrl :: "string \<Rightarrow> string option"
  ssrRewriteStacktrace :: "js_value \<Rightarrow> js_error + string"
  errorStack :: "js_error \<Rightarrow> string"

section \<open>The external resolver: \<^verbatim>\<open>resolve\<close> and \<^verbatim>\<open>nodeRequire\<close>\<close>

text \<open>String concatenation with \<^verbatim>\<open>+\<close> writes a \<^verbatim>\<open>null\<close> importer as the text \<^verbatim>\<open>null\<close>.\<close>

definition importer_text :: "string option \<Rightarrow> string" where
  "importer_text importer = (case importer of None \<Rightarrow> ''null'' | Some p \<Rightarrow> p)"

definition cache_key :: "string \<Rightarrow> string option \<Rightarrow> string \<Rightarrow> string" where
  "cache_key depId importer root = depId @ importer_text importer @ root"

text \<open>
  \<^verbatim>\<open>resolve(id, importer, root)\<close> on the \<^verbatim>\<open>resolveCache\<close> map (\<open>depId\<close> is the source's \<^verbatim>\<open>id\<close>). \<^verbatim>\<open>if (cached)\<close> takes a
  cached path that is a non-empty string; \<^verbatim>\<open>importer && ...\<close> needs a non-null, non-empty
  importer. A failed \<^verbatim>\<open>resolveFrom\<close> throws before anything is cached.
\<close>

definition resolve ::
  "env \<Rightarrow> string \<Rightarrow> string option \<Rightarrow> string \<Rightarrow> (string \<rightharpoonup> string)
     \<Rightarrow> (js_error + string) \<times> (string \<rightharpoonup> string)" where
  "resolve E depId importer root cache =
     (let key = cache_key depId importer root in
      case cache key of
        Some (c # cs) \<Rightarrow> (Inr (c # cs), cache)
      | _ \<Rightarrow>
          (let resolveDir =
                 (case importer of
                    Some (c # cs) \<Rightarrow>
                      (if existsSync E (cleanUrl E (c # cs)) then dirname E (c # cs) else root)
                  | _ \<Rightarrow> root)
           in case resolveFrom E depId resolveDir of
                Inl e \<Rightarrow> (Inl e, cache)
              | Inr resolved \<Rightarrow> (Inr resolved, cache(key \<mapsto> resolved))))"

text \<open>
  \<^verbatim>\<open>nodeRequire(id, importer, root)\<close>, with the depth of calls allowed to its two property
  reads. \<^verbatim>\<open>mod.__esModule\<close> throws on \<^verbatim>\<open>null\<close> and
  \<^verbatim>\<open>undefined\<close>, and \<^verbatim>\<open>new Proxy\<close> throws on any other value that is not an object. The
  default export is computed once, when the wrapper is made.
\<close>

definition nodeRequire ::
  "nat \<Rightarrow> env \<Rightarrow> string \<Rightarrow> string option \<Rightarrow> string \<Rightarrow> heap \<Rightarrow> (string \<rightharpoonup> string)
     \<Rightarrow> (js_error + js_value) \<times> heap \<times> (string \<rightharpoonup> string)" where
  "nodeRequire n E depId importer root h cache =
     (case resolve E depId importer root cache of
        (Inl e, rc) \<Rightarrow> (Inl e, h, rc)
      | (Inr path, rc) \<Rightarrow>
          (case require E path of
             Inl e \<Rightarrow> (Inl e, h, rc)
           | Inr (Ref a) \<Rightarrow>
               (case js_get n h a (KStr ''__esModule'') of
                  Inl e \<Rightarrow> (Inl e, h, rc)
                | Inr esm \<Rightarrow>
                    (if truthy esm then
                       (case js_get n h a (KStr ''default'') of
                          Inl e \<Rightarrow> (Inl e, h, rc)
                        | Inr defaultExport \<Rightarrow>
                            (Inr (Ref (length h)), h @ [InteropProxy a defaultExport], rc))
                     else (Inr (Ref (length h)), h @ [InteropProxy a (Ref a)], rc)))
           | Inr Undefined \<Rightarrow> (Inl (TypeError ''Cannot read properties of undefined''), h, rc)
           | Inr Null \<Rightarrow> (Inl (TypeError ''Cannot read properties of null''), h, rc)
           | Inr v \<Rightarrow> (Inl (TypeError ''Cannot create proxy with a non-object as target''), h, rc)))"

text \<open>
  The object at \<open>raw\<close> shows under \<^verbatim>\<open>default\<close> a data property that is neither writable nor
  configurable and whose value is another value than the object itself.
\<close>

definition holds_other_default :: "nat \<Rightarrow> heap \<Rightarrow> addr \<Rightarrow> bool" where
  "holds_other_default n h raw =
     (case own_property n h raw (KStr ''default'') of
        Inl e \<Rightarrow> False
      | Inr desc \<Rightarrow> trap_refused desc (Ref raw))"

section \<open>The binding surface: \<^verbatim>\<open>ssrExportAll\<close>\<close>

text \<open>The own property an ordinary object holds under a key, if any.\<close>

definition own_slot :: "heap \<Rightarrow> addr \<Rightarrow> prop_key \<Rightarrow> slot option" where
  "own_slot h a k =
     (if a < length h then
        (case h ! a of Plain ps ext \<Rightarrow> map_of ps k | InteropProxy target d \<Rightarrow> None)
      else None)"

text \<open>
  The body of the \<^verbatim>\<open>for (const key in sourceModule)\<close> loop, over the keys the loop visits:
  every key but \<^verbatim>\<open>default\<close> is defined on the module's namespace as an enumerable,
  configurable accessor that reads the source. A \<^verbatim>\<open>TypeError\<close> of
  \<^verbatim>\<open>Object.defineProperty\<close> ends the loop, the keys defined so far staying defined.
\<close>

fun exportKeys :: "heap \<Rightarrow> addr \<Rightarrow> addr \<Rightarrow> string list \<Rightarrow> js_error option \<times> heap" where
  "exportKeys h ssrModule src [] = (None, h)"
| "exportKeys h ssrModule src (key # keys) =
     (if key \<noteq> ''default'' then
        (case defineProperty h ssrModule (KStr key) (Accessor (ReadThrough src key) True True) of
           Inl e \<Rightarrow> (Some e, h)
         | Inr h' \<Rightarrow> exportKeys h' ssrModule src keys)
      else exportKeys h ssrModule src keys)"

text \<open>
  The decimal numeral of a number, and the same loop over the indices of a string primitive:
  a \<^verbatim>\<open>for-in\<close> over a string visits its indices, and the getter reads the character.
\<close>

fun decimal :: "nat \<Rightarrow> string" where
  "decimal n = (if n < 10 then [char_of (48 + n)] else decimal (n div 10) @ [char_of (48 + n mod 10)])"

declare decimal.simps [simp del]

fun exportChars :: "heap \<Rightarrow> addr \<Rightarrow> string \<Rightarrow> nat list \<Rightarrow> js_error option \<times> heap" where
  "exportChars h ssrModule str [] = (None, h)"
| "exportChars h ssrModule str (i # is) =
     (if decimal i \<noteq> ''default'' then
        (case defineProperty h ssrModule (KStr (decimal i)) (Accessor (ReadChar str i) True True) of
           Inl e \<Rightarrow> (Some e, h)
         | Inr h' \<Rightarrow> exportChars h' ssrModule str is)
      else exportChars h ssrModule str is)"

text \<open>
  \<^verbatim>\<open>ssrExportAll(sourceModule)\<close> for the namespace \<open>ssrModule\<close>. A \<^verbatim>\<open>for-in\<close> over
  \<^verbatim>\<open>null\<close>, \<^verbatim>\<open>undefined\<close>, a boolean or a number visits nothing.
\<close>

definition ssrExportAll :: "nat \<Rightarrow> heap \<Rightarrow> addr \<Rightarrow> js_value \<Rightarrow> js_error option \<times> heap" where
  "ssrExportAll n h ssrModule sourceModule =
     (case sourceModule of
        Ref src \<Rightarrow>
          (case forInKeys n h src of
             Inl e \<Rightarrow> (Some e, h)
           | Inr keys \<Rightarrow> exportKeys h ssrModule src keys)
      | Str str \<Rightarrow> exportChars h ssrModule str [0..<length str]
      | _ \<Rightarrow> (None, h))"

section \<open>The state of the loader\<close>

text \<open>
  A node of the module graph (\<^verbatim>\<open>ModuleNode\<close>), with the fields the loader reads and writes.
  The \<^verbatim>\<open>ssrModule\<close> field is a nullable reference: \<open>None\<close> is \<^verbatim>\<open>null\<close>, the field of a node
  without namespace.
\<close>

record module_node =
  mod_url :: string
  mod_file :: "string option"
  mod_ssrTransformResult :: "transform_result option"
  mod_ssrModule :: "addr option"

text \<open>
  The state of the promise of one \<^verbatim>\<open>instantiateModule\<close> call. Promises are allocated like
  objects: a promise is an index into the list of promises, each kept with the url of its
  call.
\<close>

datatype promise_state = Unsettled | Fulfilled js_value | Rejected js_error

text \<open>
  The shared mutable state: the object heap, \<^verbatim>\<open>moduleGraph.urlToModuleMap\<close>, the module-level
  maps \<^verbatim>\<open>pendingModules\<close> and \<^verbatim>\<open>resolveCache\<close>, the promises, and the reactions
  \<^verbatim>\<open>modulePromise.catch(() => {}).then(() => pendingModules.delete(url))\<close> that were
  registered and have not run yet, each as the promise it waits for and the url it deletes.
\<close>

record loader_state =
  st_heap :: heap
  urlToModuleMap :: "string \<rightharpoonup> module_node"
  pendingModules :: "string \<rightharpoonup> nat"
  promises :: "(string \<times> promise_state) list"
  cleanups :: "(nat \<times> string) list"
  resolveCache :: "string \<rightharpoonup> string"

text \<open>
  Modelled from the spec: \<^verbatim>\<open>moduleGraph.ensureEntryFromUrl\<close> is not among the sources. The
  spec gives it as \<^verbatim>\<open>ensureEntryFromUrl(identifier) -> Module Record (creates on first access)\<close>:
  the node stored under the url, created without namespace and without cached transform
  result when there is none.
\<close>

definition ensureEntryFromUrl :: "env \<Rightarrow> string \<Rightarrow> loader_state \<Rightarrow> module_node \<times> loader_state" where
  "ensureEntryFromUrl E url s =
     (case urlToModuleMap s url of
        Some node \<Rightarrow> (node, s)
      | None \<Rightarrow>
          (let node = \<lparr> mod_url = url, mod_file = fileOfUrl E url,
                       mod_ssrTransformResult = None, mod_ssrModule = None \<rparr>
           in (node, s\<lparr> urlToModuleMap := (urlToModuleMap s)(url \<mapsto> node) \<rparr>)))"

text \<open>
  The value of the expression \<^verbatim>\<open>mod.ssrModule\<close>: the namespace object, or \<^verbatim>\<open>null\<close>.
\<close>

definition namespace_value :: "addr option \<Rightarrow> js_value" where
  "namespace_value ns = (case ns of None \<Rightarrow> Null | Some a \<Rightarrow> Ref a)"

section \<open>The binding surface: \<^verbatim>\<open>ssrImport\<close> and the evaluation of a module body\<close>

text \<open>\<^verbatim>\<open>const isExternal = (dep: string) => dep[0] !== '.' && dep[0] !== '/'\<close>.\<close>

definition isExternal :: "string \<Rightarrow> bool" where
  "isExternal dep = (case dep of [] \<Rightarrow> True | c # cs \<Rightarrow> c \<noteq> CHR ''.'' \<and> c \<noteq> CHR ''/'')"

text \<open>
  \<^verbatim>\<open>ssrImport(dep)\<close> of the module at \<open>url\<close>; \<^verbatim>\<open>mod.file\<close> is read from the node when the call
  is made. For an internal specifier, \<^verbatim>\<open>urlToModuleMap.get(...)?.ssrModule\<close> is \<^verbatim>\<open>undefined\<close>
  when the map has no node, and the field of the node otherwise.
\<close>

definition ssrImport ::
  "env \<Rightarrow> string \<Rightarrow> string \<Rightarrow> loader_state \<Rightarrow> (js_error + js_value) \<times> loader_state" where
  "ssrImport E url dep s =
     (if isExternal dep then
        (case nodeRequire (callDepth E) E dep
                (case urlToModuleMap s url of None \<Rightarrow> None | Some node \<Rightarrow> mod_file node)
                (config_root E) (st_heap s) (resolveCache s) of
           (r, h, rc) \<Rightarrow> (r, s\<lparr> st_heap := h, resolveCache := rc \<rparr>))
      else
        (case urlToModuleMap s (unwrapId E dep) of
           None \<Rightarrow> Inr Undefined
         | Some dmod \<Rightarrow> Inr (namespace_value (mod_ssrModule dmod)), s))"

text \<open>
  \<^verbatim>\<open>exports[key] = v\<close> on an ordinary object: a writable data property takes the value, a
  new key is created writable, enumerable and configurable on an extensible object, and
  every other assignment is refused (silently, the code of \<^verbatim>\<open>new Function\<close> not being strict).
\<close>

definition assignProp :: "heap \<Rightarrow> addr \<Rightarrow> prop_key \<Rightarrow> js_value \<Rightarrow> heap" where
  "assignProp h a k v =
     (if a < length h then
        (case h ! a of
           Plain ps ext \<Rightarrow>
             (case map_of ps k of
                None \<Rightarrow> (if ext then h[a := Plain (put_slot k (Data v True True True) ps) ext] else h)
              | Some (Data v0 w e c) \<Rightarrow>
                  (if w then h[a := Plain (put_slot k (Data v w e c) ps) ext] else h)
              | Some (Accessor g e c) \<Rightarrow> h)
         | InteropProxy target d \<Rightarrow> h)
      else h)"

text \<open>
  Running the code of the module at \<open>url\<close> against its namespace \<open>ssrModule\<close>: the result is
  the error it threw, if any. An error of an import or of \<^verbatim>\<open>ssrExportAll\<close> is handed to the
  code, which rethrows it or goes on.
\<close>

primrec runBody ::
  "body \<Rightarrow> env \<Rightarrow> string \<Rightarrow> addr \<Rightarrow> loader_state \<Rightarrow> js_error option \<times> loader_state" where
  "runBody Done E url ssrModule s = (None, s)"
| "runBody (Throw e) E url ssrModule s = (Some e, s)"
| "runBody (Import dep k) E url ssrModule s =
     (case ssrImport E url dep s of
        (r, s') \<Rightarrow> runBody (k r) E url ssrModule s')"
| "runBody (ExportAll v k) E url ssrModule s =
     (case ssrExportAll (callDepth E) (st_heap s) ssrModule v of
        (err, h') \<Rightarrow> runBody (k err) E url ssrModule (s\<lparr> st_heap := h' \<rparr>))"
| "runBody (Assign key v b) E url ssrModule s =
     runBody b E url ssrModule (s\<lparr> st_heap := assignProp (st_heap s) ssrModule (KStr key) v \<rparr>)"

section \<open>\<^verbatim>\<open>ssrLoadModule\<close> and \<^verbatim>\<open>instantiateModule\<close>\<close>

text \<open>The namespace object of lines 58 to 61: the module tag, and a hidden, fixed \<^verbatim>\<open>__esModule\<close>.\<close>

definition newNamespace :: heap_obj where
  "newNamespace =
     Plain [(KToStringTag, Data (Str ''Module'') True True True),
            (KStr ''__esModule'', Data (Bool True) False False False)] True"

text \<open>
  Lines 58 to 63: the new namespace is allocated and written to the node's \<^verbatim>\<open>ssrModule\<close>
  field; its address is the old length of the heap.
\<close>

definition assign_namespace :: "string \<Rightarrow> module_node \<Rightarrow> loader_state \<Rightarrow> loader_state" where
  "assign_namespace url node s =
     s\<lparr> st_heap := st_heap s @ [newNamespace],
        urlToModuleMap :=
          (urlToModuleMap s)(url \<mapsto> node\<lparr> mod_ssrModule := Some (length (st_heap s)) \<rparr>) \<rparr>"

text \<open>
  The part of \<^verbatim>\<open>ssrLoadModule\<close> that runs without interruption once
  \<^verbatim>\<open>ensureEntryFromUrl\<close> has answered (lines 33 to 42): the cycle check, the look-up in
  \<^verbatim>\<open>pendingModules\<close>, and otherwise the call of \<^verbatim>\<open>instantiateModule\<close>, which returns its
  promise at its first \<^verbatim>\<open>await\<close>, the entry in \<^verbatim>\<open>pendingModules\<close> and the registration of the
  cleanup. It ends in one of three ways.
\<close>

datatype front = Cycle js_value | Joined nat | Started nat

definition ssrLoadModule_front ::
  "env \<Rightarrow> string \<Rightarrow> string list \<Rightarrow> loader_state \<Rightarrow> front \<times> loader_state" where
  "ssrLoadModule_front E url0 urlStack s =
     (let url = unwrapId E url0;
          (node, s1) = ensureEntryFromUrl E url s
      in if url \<in> set urlStack then (Cycle (namespace_value (mod_ssrModule node)), s1)
         else
           (case pendingModules s1 url of
              Some pending \<Rightarrow> (Joined pending, s1)
            | None \<Rightarrow>
                (let modulePromise = length (promises s1)
                 in (Started modulePromise,
                     s1\<lparr> promises := promises s1 @ [(url, Unsettled)],
                         pendingModules := (pendingModules s1)(url \<mapsto> modulePromise),
                         cleanups := cleanups s1 @ [(modulePromise, url)] \<rparr>))))"

text \<open>
  How an asynchronous call ends for the request that made it: it returns a value, it throws
  (the promise rejects), or it is suspended on a promise that another request has to settle.
\<close>

datatype outcome = Returned js_value | Threw js_error | Awaiting nat

definition await_promise :: "loader_state \<Rightarrow> nat \<Rightarrow> outcome" where
  "await_promise s p =
     (if p < length (promises s) then
        (case snd (promises s ! p) of
           Unsettled \<Rightarrow> Awaiting p
         | Fulfilled v \<Rightarrow> Returned v
         | Rejected e \<Rightarrow> Threw e)
      else Awaiting p)"

text \<open>The promise of an instantiation settles with the way the call ended.\<close>

definition settle :: "nat \<Rightarrow> outcome \<Rightarrow> loader_state \<Rightarrow> loader_state" where
  "settle p r s =
     (case r of
        Returned v \<Rightarrow> s\<lparr> promises := (promises s)[p := (fst (promises s ! p), Fulfilled v)] \<rparr>
      | Threw e \<Rightarrow> s\<lparr> promises := (promises s)[p := (fst (promises s ! p), Rejected e)] \<rparr>
      | Awaiting q \<Rightarrow> s)"

text \<open>The registered reaction \<^verbatim>\<open>() => pendingModules.delete(url)\<close> runs, once.\<close>

definition run_cleanup :: "nat \<Rightarrow> string \<Rightarrow> loader_state \<Rightarrow> loader_state" where
  "run_cleanup p url s =
     s\<lparr> pendingModules := (pendingModules s)(url := None),
        cleanups := remove1 (p, url) (cleanups s) \<rparr>"

text \<open>
  The loop of lines 78 to 82 of \<^verbatim>\<open>instantiateModule\<close>, over the declared dependencies;
  \<open>load\<close> is the \<^verbatim>\<open>ssrLoadModule\<close> it awaits. A load that throws, or that is suspended on
  another request's promise, ends the loop.
\<close>

fun loadDeps ::
  "(string \<Rightarrow> string list \<Rightarrow> loader_state \<Rightarrow> (outcome \<times> loader_state) option)
     \<Rightarrow> string \<Rightarrow> string list \<Rightarrow> string list \<Rightarrow> loader_state
     \<Rightarrow> (outcome \<times> loader_state) option" where
  "loadDeps load url urlStack [] s = Some (Returned Undefined, s)"
| "loadDeps load url urlStack (dep # ds) s =
     (if \<not> isExternal dep then
        (case load dep (urlStack @ [url]) s of
           None \<Rightarrow> None
         | Some (Returned v, s1) \<Rightarrow> loadDeps load url urlStack ds s1
         | Some (r, s1) \<Rightarrow> Some (r, s1))
      else loadDeps load url urlStack ds s)"

text \<open>Line 54: the node already holds a namespace, and the namespace is frozen.\<close>

definition already_instantiated :: "module_node \<Rightarrow> loader_state \<Rightarrow> bool" where
  "already_instantiated node s =
     (case mod_ssrModule node of None \<Rightarrow> False | Some a \<Rightarrow> isFrozen (st_heap s) a)"

text \<open>
  Lines 65 to 67: \<^verbatim>\<open>mod.ssrTransformResult || (await transformRequest(url, server, { ssr: true }))\<close>.
\<close>

definition transform_result_of :: "env \<Rightarrow> string \<Rightarrow> module_node \<Rightarrow> js_error + transform_result option" where
  "transform_result_of E url node =
     (case mod_ssrTransformResult node of
        Some cached \<Rightarrow> Inr (Some cached)
      | None \<Rightarrow> transformRequest E url)"

text \<open>
  \<^verbatim>\<open>obj[key] = v\<close> in strict code, as the loader's own code is: a refused assignment throws a
  \<^verbatim>\<open>TypeError\<close>. The wrapper of \<^verbatim>\<open>nodeRequire\<close> has no \<^verbatim>\<open>set\<close> trap and hands the assignment
  to its target.
\<close>

fun strict_assign :: "nat \<Rightarrow> heap \<Rightarrow> addr \<Rightarrow> prop_key \<Rightarrow> js_value \<Rightarrow> js_error + heap" where
  "strict_assign 0 h a k v = Inl (RangeError ''Maximum call stack size exceeded'')"
| "strict_assign (Suc n) h a k v =
     (if a < length h then
        (case h ! a of
           Plain ps ext \<Rightarrow>
             (case map_of ps k of
                None \<Rightarrow>
                  (if ext then Inr (h[a := Plain (put_slot k (Data v True True True) ps) ext])
                   else Inl (TypeError ''Cannot add property, object is not extensible''))
              | Some (Data v0 w e c) \<Rightarrow>
                  (if w then Inr (h[a := Plain (put_slot k (Data v w e c) ps) ext])
                   else Inl (TypeError ''Cannot assign to read only property''))
              | Some (Accessor g e c) \<Rightarrow>
                  Inl (TypeError ''Cannot set property which has only a getter''))
         | InteropProxy target d \<Rightarrow> strict_assign n h target k v)
      else Inl (TypeError ''Cannot set properties of undefined''))"

text \<open>
  The \<^verbatim>\<open>catch\<close> block of lines 133 to 143: \<^verbatim>\<open>e.stack = ssrRewriteStacktrace(e.stack, moduleGraph)\<close>,
  the log, and \<^verbatim>\<open>throw e\<close>. The result is what the block throws and the heap it leaves. On
  \<^verbatim>\<open>null\<close> and \<^verbatim>\<open>undefined\<close> the read of \<^verbatim>\<open>e.stack\<close> throws; any other thrown value that is not
  an object has no \<^verbatim>\<open>stack\<close>, and the write to it throws; on an object the read, the rewrite
  or the write may throw (the write does on a frozen object), and then that error takes the
  place of \<open>e\<close>. An error object the engine made (\<open>Error\<close>, \<open>TypeError\<close>, \<open>RangeError\<close>) holds its
  trace in a writable property. The logger is taken not to throw.
\<close>

definition catch_block :: "env \<Rightarrow> heap \<Rightarrow> js_error \<Rightarrow> js_error \<times> heap" where
  "catch_block E h e =
     (case e of
        Thrown Undefined \<Rightarrow> (TypeError ''Cannot read properties of undefined'', h)
      | Thrown Null \<Rightarrow> (TypeError ''Cannot read properties of null'', h)
      | Thrown (Ref a) \<Rightarrow>
          (case js_get (callDepth E) h a (KStr ''stack'') of
             Inl e1 \<Rightarrow> (e1, h)
           | Inr stack \<Rightarrow>
               (case ssrRewriteStacktrace E stack of
                  Inl e2 \<Rightarrow> (e2, h)
                | Inr rewritten \<Rightarrow>
                    (case strict_assign (callDepth E) h a (KStr ''stack'') (Str rewritten) of
                       Inl e3 \<Rightarrow> (e3, h)
                     | Inr h' \<Rightarrow> (Thrown (Ref a), h'))))
      | Thrown v \<Rightarrow>
          (case ssrRewriteStacktrace E Undefined of
             Inl e2 \<Rightarrow> (e2, h)
           | Inr rewritten \<Rightarrow> (TypeError ''Cannot create property on a primitive'', h))
      | _ \<Rightarrow>
          (case ssrRewriteStacktrace E (Str (errorStack E e)) of
             Inl e2 \<Rightarrow> (e2, h)
           | Inr rewritten \<Rightarrow> (e, h)))"

text \<open>
  Lines 116 to 146: the code runs against the binding surface; an error it throws goes
  through the \<^verbatim>\<open>catch\<close> block, and otherwise the namespace is frozen and returned.
\<close>

definition evaluateModule ::
  "env \<Rightarrow> string \<Rightarrow> addr \<Rightarrow> transform_result \<Rightarrow> loader_state \<Rightarrow> outcome \<times> loader_state" where
  "evaluateModule E url ssrModule result s =
     (case runBody (code result) E url ssrModule s of
        (Some e, s') \<Rightarrow>
          (Threw (fst (catch_block E (st_heap s') e)),
           s'\<lparr> st_heap := snd (catch_block E (st_heap s') e) \<rparr>)
      | (None, s') \<Rightarrow> (Returned (Ref ssrModule), s'\<lparr> st_heap := freeze (st_heap s') ssrModule \<rparr>))"

text \<open>
  The body of \<^verbatim>\<open>instantiateModule(url, server, context, urlStack)\<close>, run to its end, with
  the \<^verbatim>\<open>ssrLoadModule\<close> it calls as the parameter \<open>load\<close>.
\<close>

definition instantiateModule_body ::
  "(string \<Rightarrow> string list \<Rightarrow> loader_state \<Rightarrow> (outcome \<times> loader_state) option)
     \<Rightarrow> env \<Rightarrow> string \<Rightarrow> string list \<Rightarrow> loader_state
     \<Rightarrow> (outcome \<times> loader_state) option" where
  "instantiateModule_body load E url urlStack s =
     (case ensureEntryFromUrl E url s of
        (node, s1) \<Rightarrow>
          (if already_instantiated node s1
           then Some (Returned (namespace_value (mod_ssrModule node)), s1)
           else
             (let ssrModule = length (st_heap s1);
                  s2 = assign_namespace url node s1
              in case transform_result_of E url node of
                   Inl e \<Rightarrow> Some (Threw e, s2)
                 | Inr None \<Rightarrow> Some (Threw (Error (''failed to load module for ssr: '' @ url)), s2)
                 | Inr (Some result) \<Rightarrow>
                     (case loadDeps load url urlStack (deps result) s2 of
                        None \<Rightarrow> None
                      | Some (Returned u, s3) \<Rightarrow> Some (evaluateModule E url ssrModule result s3)
                      | Some (r, s3) \<Rightarrow> Some (r, s3)))))"

text \<open>
  \<^verbatim>\<open>ssrLoadModule(url, server, context, urlStack)\<close> for one request, run until it ends, every
  \<^verbatim>\<open>await\<close> of a call of the loader running that call to its end. The first argument bounds
  the nesting of loads, which may go on for ever along an endless chain of dependencies;
  \<open>None\<close> means the bound was reached. When the instantiation has ended its promise settles and the cleanup runs, before
  the caller goes on.
\<close>

primrec ssrLoadModule ::
  "nat \<Rightarrow> env \<Rightarrow> string \<Rightarrow> string list \<Rightarrow> loader_state \<Rightarrow> (outcome \<times> loader_state) option" where
  "ssrLoadModule 0 E url0 urlStack s = None"
| "ssrLoadModule (Suc n) E url0 urlStack s =
     (case ssrLoadModule_front E url0 urlStack s of
        (Cycle v, s1) \<Rightarrow> Some (Returned v, s1)
      | (Joined pending, s1) \<Rightarrow> Some (await_promise s1 pending, s1)
      | (Started modulePromise, s1) \<Rightarrow>
          (case instantiateModule_body (ssrLoadModule n E) E (unwrapId E url0) urlStack s1 of
             None \<Rightarrow> None
           | Some (Awaiting q, s2) \<Rightarrow> Some (Awaiting q, s2)
           | Some (r, s2) \<Rightarrow>
               Some (r, run_cleanup modulePromise (unwrapId E url0) (settle modulePromise r s2))))"

definition instantiateModule ::
  "nat \<Rightarrow> env \<Rightarrow> string \<Rightarrow> string list \<Rightarrow> loader_state \<Rightarrow> (outcome \<times> loader_state) option" where
  "instantiateModule n E url urlStack s =
     instantiateModule_body (ssrLoadModule n E) E url urlStack s"

section \<open>Interleaved requests\<close>

text \<open>
  Requests interleave only at an \<^verbatim>\<open>await\<close>, so a run of the loader under any number of
  requests is a sequence of uninterrupted steps. \<open>Call url urlStack\<close>: a call of
  \<^verbatim>\<open>ssrLoadModule\<close> gets past its first \<^verbatim>\<open>await\<close> and runs lines 33 to 42. \<open>Work f\<close>: an
  instantiation goes on between two of its \<^verbatim>\<open>await\<close>s; whatever it does there to the heap, the
  module graph and the resolve cache, it does not touch \<^verbatim>\<open>pendingModules\<close>, which only lines
  37 to 41 read and write, nor the promises. \<open>Settle p r\<close>: the instantiation behind the
  unsettled promise \<open>p\<close> ends with \<open>r\<close>. \<open>Cleanup p url\<close>: the reaction registered on \<open>p\<close> for
  \<open>url\<close> runs, \<open>p\<close> being settled. Every result and every moment of an instantiation is
  allowed, so each run of the program is among the runs described.
\<close>

datatype event =
    Call string "string list"
  | Work "loader_state \<Rightarrow> loader_state"
  | Settle nat outcome
  | Cleanup nat string

fun apply_event :: "env \<Rightarrow> event \<Rightarrow> loader_state \<Rightarrow> loader_state option" where
  "apply_event E (Call url0 urlStack) s = Some (snd (ssrLoadModule_front E url0 urlStack s))"
| "apply_event E (Work f) s =
     Some ((f s)\<lparr> pendingModules := pendingModules s, promises := promises s,
                  cleanups := cleanups s \<rparr>)"
| "apply_event E (Settle p r) s =
     (if p < length (promises s) \<and> snd (promises s ! p) = Unsettled
         \<and> (case r of Awaiting q \<Rightarrow> False | _ \<Rightarrow> True)
      then Some (settle p r s) else None)"
| "apply_event E (Cleanup p url) s =
     (if (p, url) \<in> set (cleanups s) \<and> p < length (promises s)
         \<and> snd (promises s ! p) \<noteq> Unsettled
      then Some (run_cleanup p url s) else None)"

fun run_events :: "env \<Rightarrow> event list \<Rightarrow> loader_state \<Rightarrow> loader_state option" where
  "run_events E [] s = Some s"
| "run_events E (e # es) s =
     (case apply_event E e s of None \<Rightarrow> None | Some s' \<Rightarrow> run_events E es s')"

text \<open>A loader that has loaded nothing yet: no pending entry, no promise, no reaction.\<close>

definition idle :: "loader_state \<Rightarrow> bool" where
  "idle s = (pendingModules s = Map.empty \<and> promises s = [] \<and> cleanups s = [])"

text \<open>An instantiation of \<open>url\<close> is in flight: its promise \<open>p\<close> is not settled.\<close>

definition in_flight :: "loader_state \<Rightarrow> string \<Rightarrow> nat \<Rightarrow> bool" where
  "in_flight s url p = (p < length (promises s) \<and> promises s ! p = (url, Unsettled))"

text \<open>The number of calls of \<^verbatim>\<open>instantiateModule\<close> made for \<open>url\<close> so far.\<close>

definition instantiations :: "loader_state \<Rightarrow> string \<Rightarrow> nat" where
  "instantiations s url = length (filter (\<lambda>pr. fst pr = url) (promises s))"

text \<open>
  What holds of the pending table in every state the loader reaches: the url of an unsettled
  promise is pending on that promise, a reaction waits for the promise its url is pending
  on, and no reaction is registered twice.
\<close>

definition pending_inv :: "loader_state \<Rightarrow> bool" where
  "pending_inv s =
     ((\<forall>p < length (promises s).
          snd (promises s ! p) = Unsettled \<longrightarrow>
          pendingModules s (fst (promises s ! p)) = Some p) \<and>
      (\<forall>c \<in> set (cleanups s). fst c < length (promises s) \<and> pendingModules s (snd c) = Some (fst c)) \<and>
      distinct (cleanups s))"

text \<open>
  While the instantiation behind promise \<open>p\<close> of \<open>url\<close> is in flight: the invariant holds,
  \<open>url\<close> is pending on \<open>p\<close>, and \<open>i\<close> instantiations of \<open>url\<close> have been started so far.
\<close>

definition held :: "nat \<Rightarrow> nat \<Rightarrow> string \<Rightarrow> loader_state \<Rightarrow> bool" where
  "held i p url s =
     (pending_inv s \<and> pendingModules s url = Some p \<and> in_flight s url p \<and> instantiations s url = i)"

section \<open>Predicates on states\<close>

text \<open>The node of \<open>url\<close> holds a namespace object.\<close>

definition has_namespace :: "loader_state \<Rightarrow> string \<Rightarrow> bool" where
  "has_namespace s url =
     (case urlToModuleMap s url of None \<Rightarrow> False | Some node \<Rightarrow> mod_ssrModule node \<noteq> None)"

text \<open>Every url of a call stack holds a namespace object.\<close>

definition stack_live :: "loader_state \<Rightarrow> string list \<Rightarrow> bool" where
  "stack_live s urlStack = list_all (has_namespace s) urlStack"

text \<open>The transform result cached in the node of \<open>url\<close>, if any.\<close>

definition cached_of :: "loader_state \<Rightarrow> string \<Rightarrow> transform_result option" where
  "cached_of s url =
     (case urlToModuleMap s url of None \<Rightarrow> None | Some node \<Rightarrow> mod_ssrTransformResult node)"

text \<open>
  How a later state relates to an earlier one: promises and objects are only added, a node
  that holds a namespace goes on holding one, and the cached transform results stay.
\<close>

definition extends :: "loader_state \<Rightarrow> loader_state \<Rightarrow> bool" where
  "extends s s' =
     (length (promises s) \<le> length (promises s') \<and>
      length (st_heap s) \<le> length (st_heap s') \<and>
      (\<forall>url. has_namespace s url \<longrightarrow> has_namespace s' url) \<and>
      cached_of s' = cached_of s)"

text \<open>
  Line 35 returns \<^verbatim>\<open>mod.ssrModule!\<close>: the source asserts that the namespace of a url found on
  the call stack is not null. \<open>ssrLoadModule_checked\<close> is \<open>ssrLoadModule\<close> with that assertion
  checked at every nested call: a load whose call stack names a url without namespace does
  not return.
\<close>

definition guard_live ::
  "(string \<Rightarrow> string list \<Rightarrow> loader_state \<Rightarrow> (outcome \<times> loader_state) option)
     \<Rightarrow> string \<Rightarrow> string list \<Rightarrow> loader_state \<Rightarrow> (outcome \<times> loader_state) option" where
  "guard_live load dep urlStack s = (if stack_live s urlStack then load dep urlStack s else None)"

primrec ssrLoadModule_checked ::
  "nat \<Rightarrow> env \<Rightarrow> string \<Rightarrow> string list \<Rightarrow> loader_state \<Rightarrow> (outcome \<times> loader_state) option" where
  "ssrLoadModule_checked 0 E url0 urlStack s = None"
| "ssrLoadModule_checked (Suc n) E url0 urlStack s =
     (case ssrLoadModule_front E url0 urlStack s of
        (Cycle v, s1) \<Rightarrow> Some (Returned v, s1)
      | (Joined pending, s1) \<Rightarrow> Some (await_promise s1 pending, s1)
      | (Started modulePromise, s1) \<Rightarrow>
          (case instantiateModule_body (guard_live (ssrLoadModule_checked n E)) E
                  (unwrapId E url0) urlStack s1 of
             None \<Rightarrow> None
           | Some (Awaiting q, s2) \<Rightarrow> Some (Awaiting q, s2)
           | Some (r, s2) \<Rightarrow>
               Some (r, run_cleanup modulePromise (unwrapId E url0) (settle modulePromise r s2))))"

text \<open>
  The transform result the loader uses for \<open>url\<close> in state \<open>s\<close>, and a set of urls that holds
  the internal dependencies of each of its members (a finite one: a finite module graph).
\<close>

definition effective_transform :: "env \<Rightarrow> loader_state \<Rightarrow> string \<Rightarrow> js_error + transform_result option" where
  "effective_transform E s url =
     (case cached_of s url of Some cached \<Rightarrow> Inr (Some cached) | None \<Rightarrow> transformRequest E url)"

definition deps_closed :: "env \<Rightarrow> loader_state \<Rightarrow> string set \<Rightarrow> bool" where
  "deps_closed E s U =
     (\<forall>url \<in> U. \<forall>result. effective_transform E s url = Inr (Some result) \<longrightarrow>
        (\<forall>dep \<in> set (deps result). \<not> isExternal dep \<longrightarrow> unwrapId E dep \<in> U))"

text \<open>
  A load function is balanced when, called in a state whose pending urls are all on the call
  stack, it is never suspended and leaves \<^verbatim>\<open>pendingModules\<close> as it found it.
\<close>

definition balanced ::
  "(string \<Rightarrow> string list \<Rightarrow> loader_state \<Rightarrow> (outcome \<times> loader_state) option) \<Rightarrow> bool" where
  "balanced load =
     (\<forall>dep st x r x'. dom (pendingModules x) \<subseteq> set st \<longrightarrow> load dep st x = Some (r, x') \<longrightarrow>
        (\<forall>q. r \<noteq> Awaiting q) \<and> pendingModules x' = pendingModules x)"

text \<open>The node of \<open>url\<close> holds the namespace at address \<open>a\<close>, and that namespace is frozen.\<close>

definition frozen_at :: "loader_state \<Rightarrow> string \<Rightarrow> addr \<Rightarrow> bool" where
  "frozen_at s url a =
     (case urlToModuleMap s url of
        None \<Rightarrow> False
      | Some node \<Rightarrow> mod_ssrModule node = Some a \<and> isFrozen (st_heap s) a)"

text \<open>
  How a later heap relates to an earlier one: a frozen object is still there and is the same
  object, and an ordinary object is still an ordinary object.
\<close>

fun is_plain :: "heap_obj \<Rightarrow> bool" where
  "is_plain (Plain ps ext) = True"
| "is_plain (InteropProxy target d) = False"

definition heap_kept :: "heap \<Rightarrow> heap \<Rightarrow> bool" where
  "heap_kept h h' =
     (length h \<le> length h' \<and>
      (\<forall>a. isFrozen h a \<longrightarrow> h' ! a = h ! a) \<and>
      (\<forall>a < length h. is_plain (h ! a) \<longrightarrow> is_plain (h' ! a)))"

text \<open>
  How a later state relates to an earlier one, as to frozen namespaces: the heap is kept, and
  a node that holds a frozen namespace goes on holding that namespace.
\<close>

definition keeps :: "loader_state \<Rightarrow> loader_state \<Rightarrow> bool" where
  "keeps s s' =
     (heap_kept (st_heap s) (st_heap s') \<and>
      (\<forall>url a. frozen_at s url a \<longrightarrow> frozen_at s' url a))"

section \<open>The instantiations as tasks\<close>

text \<open>
  The steps of the last section say nothing of what an instantiation does between two of
  its \<^verbatim>\<open>await\<close>s. Here each call of \<^verbatim>\<open>instantiateModule\<close> is a task that stands at one of its
  \<^verbatim>\<open>await\<close>s: at line 52 (\<open>AtEntry\<close>), at line 67 with its namespace made (\<open>AtTransform\<close>),
  in the loop of lines 78 to 82 before the load of the dependencies that remain (\<open>AtDeps\<close>),
  or at line 80 waiting for the promise the load of a dependency returned (\<open>AtAwait\<close>);
  \<open>Ended\<close> once it has returned or thrown. The namespace and the transform result are the
  local variables \<^verbatim>\<open>ssrModule\<close> and \<^verbatim>\<open>result\<close>.
\<close>

datatype pc =
    AtEntry
  | AtTransform addr
  | AtDeps addr transform_result "string list"
  | AtAwait addr transform_result "string list" nat
  | Ended

record task =
  t_url :: string
  t_stack :: "string list"
  t_pc :: pc

text \<open>
  The loader with its tasks, each under the index of its promise. \<open>evaluated\<close> is the history
  of the calls of lines 117 to 132: the url of each module whose code was run, the latest
  last. The loader never reads it.
\<close>

record system =
  loader :: loader_state
  tasks :: "nat \<rightharpoonup> task"
  evaluated :: "string list"

text \<open>
  A call of \<^verbatim>\<open>ssrLoadModule\<close> runs lines 33 to 42; when it calls \<^verbatim>\<open>instantiateModule\<close>, the new
  task stands at line 52.
\<close>

definition request :: "env \<Rightarrow> string \<Rightarrow> string list \<Rightarrow> system \<Rightarrow> front \<times> system" where
  "request E url0 urlStack c =
     (case ssrLoadModule_front E url0 urlStack (loader c) of
        (Started modulePromise, s1) \<Rightarrow>
          (Started modulePromise,
           c\<lparr> loader := s1,
              tasks := (tasks c)(modulePromise \<mapsto>
                 \<lparr> t_url = unwrapId E url0, t_stack = urlStack, t_pc = AtEntry \<rparr>) \<rparr>)
      | (f, s1) \<Rightarrow> (f, c\<lparr> loader := s1 \<rparr>))"

text \<open>The task behind promise \<open>p\<close> returns or throws: its promise settles.\<close>

definition finish_task :: "nat \<Rightarrow> task \<Rightarrow> outcome \<Rightarrow> system \<Rightarrow> system" where
  "finish_task p t r c =
     c\<lparr> loader := settle p r (loader c), tasks := (tasks c)(p \<mapsto> t\<lparr> t_pc := Ended \<rparr>) \<rparr>"

definition goto :: "nat \<Rightarrow> task \<Rightarrow> pc \<Rightarrow> system \<Rightarrow> system" where
  "goto p t l c = c\<lparr> tasks := (tasks c)(p \<mapsto> t\<lparr> t_pc := l \<rparr>) \<rparr>"

text \<open>
  The task behind promise \<open>p\<close> runs from the \<^verbatim>\<open>await\<close> it stands at to its next one, or to its
  end. A task that has ended, or that waits for a promise not yet settled, cannot run. The
  code of the module runs, and is entered in the history, in the step that ends the loop.
\<close>

definition advance :: "env \<Rightarrow> nat \<Rightarrow> system \<Rightarrow> system option" where
  "advance E p c =
     (case tasks c p of
        None \<Rightarrow> None
      | Some t \<Rightarrow>
          (case t_pc t of
             Ended \<Rightarrow> None
           | AtEntry \<Rightarrow>
               (case ensureEntryFromUrl E (t_url t) (loader c) of
                  (node, s1) \<Rightarrow>
                    (if already_instantiated node s1
                     then Some (finish_task p t (Returned (namespace_value (mod_ssrModule node)))
                                  (c\<lparr> loader := s1 \<rparr>))
                     else
                       (let ssrModule = length (st_heap s1);
                            c2 = c\<lparr> loader := assign_namespace (t_url t) node s1 \<rparr>
                        in case mod_ssrTransformResult node of
                             Some result \<Rightarrow> Some (goto p t (AtDeps ssrModule result (deps result)) c2)
                           | None \<Rightarrow> Some (goto p t (AtTransform ssrModule) c2))))
           | AtTransform ssrModule \<Rightarrow>
               (case transformRequest E (t_url t) of
                  Inl e \<Rightarrow> Some (finish_task p t (Threw e) c)
                | Inr None \<Rightarrow>
                    Some (finish_task p t
                            (Threw (Error (''failed to load module for ssr: '' @ t_url t))) c)
                | Inr (Some result) \<Rightarrow> Some (goto p t (AtDeps ssrModule result (deps result)) c))
           | AtDeps ssrModule result [] \<Rightarrow>
               (case evaluateModule E (t_url t) ssrModule result (loader c) of
                  (r, s1) \<Rightarrow>
                    Some (finish_task p t r
                            (c\<lparr> loader := s1, evaluated := evaluated c @ [t_url t] \<rparr>)))
           | AtDeps ssrModule result (dep # ds) \<Rightarrow>
               (if isExternal dep then Some (goto p t (AtDeps ssrModule result ds) c)
                else
                  (case request E dep (t_stack t @ [t_url t]) c of
                     (Cycle v, c1) \<Rightarrow> Some (goto p t (AtDeps ssrModule result ds) c1)
                   | (Joined pending, c1) \<Rightarrow> Some (goto p t (AtAwait ssrModule result ds pending) c1)
                   | (Started modulePromise, c1) \<Rightarrow>
                       Some (goto p t (AtAwait ssrModule result ds modulePromise) c1)))
           | AtAwait ssrModule result ds q \<Rightarrow>
               (case await_promise (loader c) q of
                  Awaiting w \<Rightarrow> None
                | Returned v \<Rightarrow> Some (goto p t (AtDeps ssrModule result ds) c)
                | Threw e \<Rightarrow> Some (finish_task p t (Threw e) c))))"

text \<open>
  What can happen next: a call of \<^verbatim>\<open>ssrLoadModule\<close> from outside the loop of lines 78 to 82
  (the server, or a dynamic import of a module, with its call stack) gets to lines 33 to 42;
  a task runs on; a registered cleanup runs, its promise being settled.
\<close>

datatype action = Request string "string list" | Advance nat | React nat string

fun step :: "env \<Rightarrow> action \<Rightarrow> system \<Rightarrow> system option" where
  "step E (Request url0 urlStack) c = Some (snd (request E url0 urlStack c))"
| "step E (Advance p) c = advance E p c"
| "step E (React p url) c =
     (if (p, url) \<in> set (cleanups (loader c)) \<and> p < length (promises (loader c))
         \<and> snd (promises (loader c) ! p) \<noteq> Unsettled
      then Some (c\<lparr> loader := run_cleanup p url (loader c) \<rparr>) else None)"

fun run :: "env \<Rightarrow> action list \<Rightarrow> system \<Rightarrow> system option" where
  "run E [] c = Some c"
| "run E (a # as) c = (case step E a c of None \<Rightarrow> None | Some c' \<Rightarrow> run E as c')"

text \<open>A loader that has started nothing yet.\<close>

definition quiet :: "system \<Rightarrow> bool" where
  "quiet c = (idle (loader c) \<and> tasks c = Map.empty \<and> evaluated c = [])"

text \<open>How often the code of \<open>url\<close> has been run.\<close>

definition runs_of :: "system \<Rightarrow> string \<Rightarrow> nat" where
  "runs_of c url = length (filter (\<lambda>u. u = url) (evaluated c))"

text \<open>
  What holds of the tasks in every state the loader reaches: the pending table is as the
  last section says, a task belongs to the promise of its index and to the url of that
  promise, and the promise of a task that has not ended is not settled.
\<close>

definition tasks_inv :: "system \<Rightarrow> bool" where
  "tasks_inv c =
     (pending_inv (loader c) \<and>
      (\<forall>p t. tasks c p = Some t \<longrightarrow>
         p < length (promises (loader c)) \<and> fst (promises (loader c) ! p) = t_url t \<and>
         (t_pc t \<noteq> Ended \<longrightarrow> snd (promises (loader c) ! p) = Unsettled)))"

text \<open>Two states of the loader with the same pending table, promises and cleanups.\<close>

definition same_protocol :: "loader_state \<Rightarrow> loader_state \<Rightarrow> bool" where
  "same_protocol x s =
     (pendingModules x = pendingModules s \<and> promises x = promises s \<and> cleanups x = cleanups s)"

text \<open>The task behind promise \<open>p\<close> stands at line 80 and waits for promise \<open>q\<close>.\<close>

definition waits_for :: "system \<Rightarrow> nat \<Rightarrow> nat \<Rightarrow> bool" where
  "waits_for c p q =
     (case tasks c p of
        None \<Rightarrow> False
      | Some t \<Rightarrow> (case t_pc t of AtAwait ssrModule result ds w \<Rightarrow> w = q | _ \<Rightarrow> False))"

text \<open>Two tasks wait for each other's promise, and neither promise is settled.\<close>

definition deadlocked :: "system \<Rightarrow> nat \<Rightarrow> nat \<Rightarrow> bool" where
  "deadlocked c p q =
     (p < length (promises (loader c)) \<and> q < length (promises (loader c)) \<and>
      snd (promises (loader c) ! p) = Unsettled \<and> snd (promises (loader c) ! q) = Unsettled \<and>
      waits_for c p q \<and> waits_for c q p)"

section \<open>The dependency step in the words of the specification\<close>

text \<open>
  The specification partitions the declared specifiers by their first character, internal
  ones starting with \<^verbatim>\<open>.\<close> or \<^verbatim>\<open>/\<close>, and loads the internal ones in the declared order, each
  load awaited before the next begins. These two definitions say that; the loop of the
  source is \<open>loadDeps\<close>.
\<close>

definition internal_specifier :: "string \<Rightarrow> bool" where
  "internal_specifier dep = (take 1 dep = ''.'' \<or> take 1 dep = ''/'')"

fun load_in_order ::
  "(string \<Rightarrow> string list \<Rightarrow> loader_state \<Rightarrow> (outcome \<times> loader_state) option)
     \<Rightarrow> string list \<Rightarrow> string list \<Rightarrow> loader_state \<Rightarrow> (outcome \<times> loader_state) option" where
  "load_in_order load callStack [] s = Some (Returned Undefined, s)"
| "load_in_order load callStack (d # ds) s =
     (case load d callStack s of
        None \<Rightarrow> None
      | Some (Returned v, s1) \<Rightarrow> load_in_order load callStack ds s1
      | Some (r, s1) \<Rightarrow> Some (r, s1))"

section \<open>Example inputs\<close>

text \<open>
  A server whose root is \<^verbatim>\<open>/r\<close>, with one installed package \<^verbatim>\<open>leftpad\<close> whose exports object is
  the object at address 0 of the heap, and no source modules. \<^verbatim>\<open>unwrapId\<close> strips the prefix
  \<^verbatim>\<open>/@id/\<close>; no importer names an existing file, so every package is searched from the root.
  The rewrite of a trace returns the text it is given, and throws on what is not a text.
\<close>

definition exampleEnv :: env where
  "exampleEnv = \<lparr>
     unwrapId = (\<lambda>u. if take 5 u = ''/@id/'' then drop 5 u else u),
     transformRequest = (\<lambda>u. Inr None),
     callDepth = 100,
     existsSync = (\<lambda>p. False),
     cleanUrl = (\<lambda>p. p),
     dirname = (\<lambda>p. p),
     resolveFrom = (\<lambda>i d. Inr (d @ ''/node_modules/'' @ i @ ''/index.js'')),
     require = (\<lambda>p. if p = ''/r/node_modules/leftpad/index.js'' then Inr (Ref 0)
                     else Inl (Error ''Cannot find module'')),
     config_root = ''/r'',
     fileOfUrl = (\<lambda>u. Some u),
     ssrRewriteStacktrace =
       (\<lambda>v. case v of Str trace \<Rightarrow> Inr trace
                      | _ \<Rightarrow> Inl (TypeError ''stack.split is not a function'')),
     errorStack = (\<lambda>e. ''Error'') \<rparr>"

text \<open>
  A package written in the legacy convention, \<^verbatim>\<open>module.exports = { default: 5, pad: 1 }\<close>, with
  no \<^verbatim>\<open>__esModule\<close> marker.
\<close>

definition legacyHeap :: heap where
  "legacyHeap =
     [Plain [(KStr ''default'', Data (Num 5) True True True),
             (KStr ''pad'', Data (Num 1) True True True)] True]"

text \<open>
  The same package with its exports frozen: \<^verbatim>\<open>module.exports = Object.freeze({ default: 5, pad: 1 })\<close>.
\<close>

definition frozenLegacyHeap :: heap where
  "frozenLegacyHeap =
     [Plain [(KStr ''default'', Data (Num 5) False True False),
             (KStr ''pad'', Data (Num 1) False True False)] False]"

text \<open>
  A package compiled from the current convention in the style
  \<^verbatim>\<open>exports.__esModule = true; exports.default = 7; exports.x = 1\<close>: the marker is an assigned,
  hence enumerable, property.
\<close>

definition markedHeap :: heap where
  "markedHeap =
     [Plain [(KStr ''__esModule'', Data (Bool True) True True True),
             (KStr ''default'', Data (Num 7) True True True),
             (KStr ''x'', Data (Num 1) True True True)] True]"

definition exampleState :: loader_state where
  "exampleState = \<lparr>
     st_heap = [newNamespace],
     urlToModuleMap = [''/a.js'' \<mapsto> \<lparr> mod_url = ''/a.js'', mod_file = Some ''/r/a.js'',
                                     mod_ssrTransformResult = None, mod_ssrModule = Some 0 \<rparr>,
                       ''/n.js'' \<mapsto> \<lparr> mod_url = ''/n.js'', mod_file = Some ''/r/n.js'',
                                     mod_ssrTransformResult = None, mod_ssrModule = None \<rparr>],
     pendingModules = Map.empty,
     promises = [],
     cleanups = [],
     resolveCache = Map.empty \<rparr>"

text \<open>
  A server with a few source modules, the installed package \<^verbatim>\<open>leftpad\<close> at address 0 of the
  heap, and nothing loaded yet. \<^verbatim>\<open>/a.js\<close> is
  \<^verbatim>\<open>import pad from 'leftpad'; export { pad }; export const x = 1; export * from '/b.js'\<close>,
  \<^verbatim>\<open>/b.js\<close> is \<^verbatim>\<open>import * as got from '/a.js'; export { got }\<close>, \<^verbatim>\<open>/c.js\<close> throws when it runs,
  the transform of \<^verbatim>\<open>/e.js\<close> is rejected, \<^verbatim>\<open>/f.js\<close> is \<^verbatim>\<open>import '/c.js'\<close>;
  the transform has no result for any other url.
\<close>

definition rethrow :: "(js_value \<Rightarrow> body) \<Rightarrow> js_error + js_value \<Rightarrow> body" where
  "rethrow k r = (case r of Inl e \<Rightarrow> Throw e | Inr v \<Rightarrow> k v)"

definition finish :: "js_error option \<Rightarrow> body" where
  "finish err = (case err of Some e \<Rightarrow> Throw e | None \<Rightarrow> Done)"

definition demoTransform :: "string \<Rightarrow> js_error + transform_result option" where
  "demoTransform u =
     (if u = ''/a.js'' then
        Inr (Some \<lparr> code =
                      Import ''leftpad'' (rethrow (\<lambda>pad.
                        Assign ''pad'' pad
                          (Assign ''x'' (Num 1)
                             (Import ''/b.js'' (rethrow (\<lambda>b. ExportAll b finish)))))),
                    deps = [''leftpad'', ''/b.js''] \<rparr>)
      else if u = ''/b.js'' then
        Inr (Some \<lparr> code = Import ''/a.js'' (rethrow (\<lambda>a. Assign ''got'' a Done)),
                    deps = [''/a.js''] \<rparr>)
      else if u = ''/c.js'' then
        Inr (Some \<lparr> code = Throw (Error ''boom''), deps = [] \<rparr>)
      else if u = ''/e.js'' then Inl (Error ''transform failed'')
      else if u = ''/f.js'' then Inr (Some \<lparr> code = Done, deps = [''/c.js''] \<rparr>)
      else Inr None)"

definition demoEnv :: env where
  "demoEnv = exampleEnv\<lparr> transformRequest := demoTransform \<rparr>"

definition demoState :: loader_state where
  "demoState = \<lparr>
     st_heap = legacyHeap,
     urlToModuleMap = Map.empty,
     pendingModules = Map.empty,
     promises = [],
     cleanups = [],
     resolveCache = Map.empty \<rparr>"

text \<open>The state the server of the example is in once \<^verbatim>\<open>/a.js\<close> has been loaded.\<close>

definition loadedState :: loader_state where
  "loadedState = snd (the (ssrLoadModule 3 demoEnv ''/a.js'' [] demoState))"

text \<open>The server of the example with nothing started.\<close>

definition quietDemo :: system where
  "quietDemo = \<lparr> loader = demoState, tasks = Map.empty, evaluated = [] \<rparr>"

text \<open>
  Two requests at once for the two modules of the cycle: the server asks for \<^verbatim>\<open>/a.js\<close> and for
  \<^verbatim>\<open>/b.js\<close> before either instantiation has gone on. Both instantiations make their
  namespace and get their transform result; \<^verbatim>\<open>/a.js\<close> skips \<^verbatim>\<open>leftpad\<close> and loads \<^verbatim>\<open>/b.js\<close> with
  the call stack \<^verbatim>\<open>['/a.js']\<close>, and \<^verbatim>\<open>/b.js\<close> loads \<^verbatim>\<open>/a.js\<close> with the call stack \<^verbatim>\<open>['/b.js']\<close>.
\<close>

definition concurrentCycle :: "action list" where
  "concurrentCycle =
     [Request ''/a.js'' [], Request ''/b.js'' [],
      Advance 0, Advance 1,
      Advance 0, Advance 0, Advance 0,
      Advance 1, Advance 1]"

text \<open>
  One request for \<^verbatim>\<open>/a.js\<close>, a second one while the first is in flight, and the steps of the
  two instantiations it leads to (promise 0 for \<^verbatim>\<open>/a.js\<close>, promise 1 for \<^verbatim>\<open>/b.js\<close>) up to the
  last step of \<^verbatim>\<open>/a.js\<close>, which \<open>Advance 0\<close> then takes.
\<close>

definition soloRun :: "action list" where
  "soloRun =
     [Advance 0, Advance 0, Request ''/a.js'' [], Advance 0, Advance 0,
      Advance 1, Advance 1, Advance 1, Advance 1, Advance 0]"

section \<open>Properties of the external resolver\<close>

lemma js_get_pos:
  "0 < n \<Longrightarrow> js_get n h a k =
     (if a < length h then
        (case h ! a of
           Plain ps ext \<Rightarrow>
             (case map_of ps k of
                None \<Rightarrow> Inr Undefined
              | Some (Data v w e c) \<Rightarrow> Inr v
              | Some (Accessor (ReadThrough src key) e c) \<Rightarrow> js_get (n - 1) h src (KStr key)
              | Some (Accessor (ReadChar str i) e c) \<Rightarrow>
                  Inr (if i < length str then Str [str ! i] else Undefined))
         | InteropProxy target d \<Rightarrow>
             (if k = KStr ''default'' then
                (case own_property (n - 1) h target k of
                   Inl e \<Rightarrow> Inl e
                 | Inr desc \<Rightarrow>
                     (if trap_refused desc d
                      then Inl (TypeError ''get on proxy: the trap did not return the actual value'')
                      else Inr d))
              else js_get (n - 1) h target k))
      else Inl (TypeError ''Cannot read properties of undefined''))"
  by (cases n) (auto split: heap_obj.splits option.splits slot.splits getter.splits sum.splits)

lemma own_property_pos:
  "0 < n \<Longrightarrow> own_property n h a k =
     (if a < length h then
        (case h ! a of
           Plain ps ext \<Rightarrow> Inr (map_of ps k)
         | InteropProxy target d \<Rightarrow> own_property (n - 1) h target k)
      else Inr None)"
  by (cases n) (auto split: heap_obj.splits)

lemma forInKeys_pos:
  "0 < n \<Longrightarrow> forInKeys n h a =
     (if a < length h then
        (case h ! a of
           Plain ps ext \<Rightarrow> Inr (key_order (enumerable_keys ps))
         | InteropProxy target d \<Rightarrow> forInKeys (n - 1) h target)
      else Inr [])"
  by (cases n) (auto split: heap_obj.splits)

lemma nodeRequire_object:
  assumes "fst (resolve E depId importer root cache) = Inr path"
    and "require E path = Inr (Ref raw)"
    and "js_get n h raw (KStr ''__esModule'') = Inr esm"
    and "truthy esm \<longrightarrow> js_get n h raw (KStr ''default'') = Inr d"
  shows "nodeRequire n E depId importer root h cache =
           (Inr (Ref (length h)),
            h @ [InteropProxy raw (if truthy esm then d else Ref raw)],
            snd (resolve E depId importer root cache))"
  using assms by (auto simp: nodeRequire_def split: prod.splits)

lemma js_get_proxy:
  assumes "p < length h" and "h ! p = InteropProxy raw d"
  shows "js_get (Suc m) h p k =
           (if k = KStr ''default'' then
              (case own_property m h raw k of
                 Inl e \<Rightarrow> Inl e
               | Inr desc \<Rightarrow>
                   (if trap_refused desc d
                    then Inl (TypeError ''get on proxy: the trap did not return the actual value'')
                    else Inr d))
            else js_get m h raw k)"
  using assms by simp

lemma exampleEnv_resolve_leftpad:
  "fst (resolve exampleEnv ''leftpad'' None ''/r'' Map.empty) = Inr ''/r/node_modules/leftpad/index.js''"
  by (simp add: resolve_def cache_key_def importer_text_def exampleEnv_def)

lemma exampleEnv_require_leftpad:
  "require exampleEnv ''/r/node_modules/leftpad/index.js'' = Inr (Ref 0)"
  by (simp add: exampleEnv_def)

text \<open>
  What holds of the wrapper whenever the platform does not refuse the trap's answer: every
  key but \<^verbatim>\<open>default\<close> reads through to the raw module, and \<^verbatim>\<open>default\<close> is the interop default
  fixed at load time.
\<close>

lemma nodeRequire_interop:
  assumes "fst (resolve E depId importer root cache) = Inr path"
    and "require E path = Inr (Ref raw)"
    and "js_get n h raw (KStr ''__esModule'') = Inr esm"
    and "truthy esm \<longrightarrow> js_get n h raw (KStr ''default'') = Inr d"
  shows "nodeRequire n E depId importer root h cache =
           (Inr (Ref (length h)),
            h @ [InteropProxy raw (if truthy esm then d else Ref raw)],
            snd (resolve E depId importer root cache)) \<and>
         (\<forall>h'' m k desc. length h < length h'' \<and>
              h'' ! length h = InteropProxy raw (if truthy esm then d else Ref raw) \<and>
              own_property m h'' raw (KStr ''default'') = Inr desc \<and>
              \<not> trap_refused desc (if truthy esm then d else Ref raw) \<longrightarrow>
              js_get (Suc m) h'' (length h) k =
                (if k = KStr ''default'' then Inr (if truthy esm then d else Ref raw)
                 else js_get m h'' raw k))"
  using nodeRequire_object[OF assms] by (auto simp del: js_get.simps simp add: js_get_proxy)

text \<open>
  C5 fails on a legacy module whose exports are frozen. \<^verbatim>\<open>nodeRequire\<close> wraps \<open>frozenLegacyHeap\<close>
  at address 1 with the module itself as interop default; the key \<^verbatim>\<open>pad\<close> reads through, but
  the read of \<^verbatim>\<open>default\<close> on the wrapper throws: the target holds 5 under \<^verbatim>\<open>default\<close> as a
  property that is neither writable nor configurable, and the platform refuses any other
  answer of the trap.
\<close>

theorem nodeRequire_frozen_default:
  "js_get 1 frozenLegacyHeap 0 (KStr ''__esModule'') = Inr Undefined \<and>
   fst (nodeRequire 1 exampleEnv ''leftpad'' None ''/r'' frozenLegacyHeap Map.empty) = Inr (Ref 1) \<and>
   fst (snd (nodeRequire 1 exampleEnv ''leftpad'' None ''/r'' frozenLegacyHeap Map.empty)) =
     frozenLegacyHeap @ [InteropProxy 0 (Ref 0)] \<and>
   js_get 2 (frozenLegacyHeap @ [InteropProxy 0 (Ref 0)]) 1 (KStr ''pad'') = Inr (Num 1) \<and>
   js_get 2 (frozenLegacyHeap @ [InteropProxy 0 (Ref 0)]) 1 (KStr ''default'') =
     Inl (TypeError ''get on proxy: the trap did not return the actual value'')"
  by (simp add: nodeRequire_def resolve_def cache_key_def importer_text_def exampleEnv_def
        frozenLegacyHeap_def trap_refused_def js_get_pos own_property_pos)

text \<open>
  C6 as stated fails. The legacy module \<open>legacyHeap\<close> (no marker) stores 5 under \<^verbatim>\<open>default\<close>, and
  the namespace loaded for it has the module object itself under \<^verbatim>\<open>default\<close>, not 5. The marked
  module \<open>markedHeap\<close> stores 7 under \<^verbatim>\<open>default\<close>, and the namespace loaded for it has 7 under
  \<^verbatim>\<open>default\<close>, not the module object.
\<close>

theorem nodeRequire_default_swapped_counterexample:
  "js_get 1 legacyHeap 0 (KStr ''__esModule'') = Inr Undefined \<and>
   js_get 1 legacyHeap 0 (KStr ''default'') = Inr (Num 5) \<and>
   fst (nodeRequire 1 exampleEnv ''leftpad'' None ''/r'' legacyHeap Map.empty) = Inr (Ref 1) \<and>
   js_get 2 (fst (snd (nodeRequire 1 exampleEnv ''leftpad'' None ''/r'' legacyHeap Map.empty))) 1
     (KStr ''default'') = Inr (Ref 0) \<and>
   js_get 1 markedHeap 0 (KStr ''__esModule'') = Inr (Bool True) \<and>
   fst (nodeRequire 1 exampleEnv ''leftpad'' None ''/r'' markedHeap Map.empty) = Inr (Ref 1) \<and>
   js_get 2 (fst (snd (nodeRequire 1 exampleEnv ''leftpad'' None ''/r'' markedHeap Map.empty))) 1
     (KStr ''default'') = Inr (Num 7)"
  by (simp add: nodeRequire_def resolve_def cache_key_def importer_text_def exampleEnv_def
        legacyHeap_def markedHeap_def trap_refused_def js_get_pos own_property_pos)

lemma own_property_mono:
  "own_property n h a k = Inr x \<Longrightarrow> n \<le> m \<Longrightarrow> own_property m h a k = Inr x"
proof (induction n arbitrary: m a)
  case 0
  then show ?case by simp
next
  case (Suc n)
  from Suc.prems(2) obtain m' where m: "m = Suc m'" and le: "n \<le> m'" by (cases m) auto
  show ?case
  proof (cases "a < length h")
    case False
    with Suc.prems(1) m show ?thesis by simp
  next
    case True
    show ?thesis
    proof (cases "h ! a")
      case (Plain ps ext)
      with Suc.prems(1) m True show ?thesis by simp
    next
      case (InteropProxy t d)
      with Suc.prems(1) True have "own_property n h t k = Inr x" by simp
      from Suc.IH[OF this le] InteropProxy True m show ?thesis by simp
    qed
  qed
qed

text \<open>
  A read of a key other than \<^verbatim>\<open>default\<close> that succeeds went down a chain of wrappers to an
  ordinary object of the heap, so the property the object shows under any key is found within
  the same depth, and stays the same when the heap grows.
\<close>

lemma own_property_of_read:
  assumes "js_get n h a k = Inr v" and "k \<noteq> KStr ''default''"
  shows "(\<exists>desc. own_property n h a k' = Inr desc) \<and>
         own_property n (h @ hs) a k' = own_property n h a k'"
  using assms(1)
proof (induction n arbitrary: a)
  case 0
  then show ?case by simp
next
  case (Suc n)
  show ?case
  proof (cases "a < length h")
    case False
    with Suc.prems show ?thesis by simp
  next
    case True
    show ?thesis
    proof (cases "h ! a")
      case (Plain ps ext)
      with True show ?thesis by (simp add: nth_append)
    next
      case (InteropProxy t d)
      with Suc.prems True assms(2) have "js_get n h t k = Inr v" by simp
      from Suc.IH[OF this] InteropProxy True show ?thesis by (simp add: nth_append)
    qed
  qed
qed

text \<open>What a read of \<^verbatim>\<open>default\<close> answered is never refused as the answer of a trap.\<close>

lemma read_default_not_refused:
  assumes "js_get n h a (KStr ''default'') = Inr d"
    and "own_property n h a (KStr ''default'') = Inr desc"
  shows "\<not> trap_refused desc d"
proof (cases n)
  case 0
  with assms show ?thesis by simp
next
  case (Suc n')
  show ?thesis
  proof (cases "a < length h")
    case False
    with assms Suc show ?thesis by simp
  next
    case True
    show ?thesis
    proof (cases "h ! a")
      case (Plain ps ext)
      with assms Suc True show ?thesis
        by (auto simp: trap_refused_def split: option.splits slot.splits getter.splits)
    next
      case (InteropProxy t d0)
      with assms Suc True show ?thesis by (auto split: sum.splits if_splits)
    qed
  qed
qed

text \<open>
  C6, amended. Loading an external dependency written in the legacy convention (no truthy
  \<^verbatim>\<open>__esModule\<close> marker) yields a namespace whose \<^verbatim>\<open>default\<close> key is the dependency object
  itself; loading one written in the current convention (marker set) yields a namespace
  whose \<^verbatim>\<open>default\<close> key is the dependency's own \<^verbatim>\<open>default\<close> property, as it was read when the
  dependency was loaded. The first half is stated for a dependency that does not show another
  value than itself under \<^verbatim>\<open>default\<close> as a property that is neither writable nor configurable
  (that case is the one of C5); the second half holds of every dependency. The read of the
  namespace is allowed at least the depth of calls the load was allowed.
\<close>

theorem nodeRequire_default_by_convention:
  assumes "fst (nodeRequire n E depId importer root h cache) = Inr w"
    and "fst (resolve E depId importer root cache) = Inr path"
    and "require E path = Inr (Ref raw)"
    and "n \<le> m"
  shows "w = Ref (length h) \<and>
         (case js_get n h raw (KStr ''__esModule'') of
            Inl e \<Rightarrow> False
          | Inr esm \<Rightarrow>
              (truthy esm \<longrightarrow>
                 (\<exists>d. js_get n h raw (KStr ''default'') = Inr d) \<and>
                 js_get (Suc m) (fst (snd (nodeRequire n E depId importer root h cache))) (length h)
                     (KStr ''default'') = js_get n h raw (KStr ''default'')) \<and>
              (\<not> truthy esm \<and> \<not> holds_other_default n h raw \<longrightarrow>
                 js_get (Suc m) (fst (snd (nodeRequire n E depId importer root h cache))) (length h)
                     (KStr ''default'') = Inr (Ref raw)))"
proof (cases "js_get n h raw (KStr ''__esModule'')")
  case (Inl e)
  with assms show ?thesis by (simp add: nodeRequire_def split: prod.splits)
next
  case (Inr esm)
  have ne: "KStr ''__esModule'' \<noteq> KStr ''default''" by simp
  from own_property_of_read[OF Inr ne, of "KStr ''default''"]
  obtain desc where dn: "own_property n h raw (KStr ''default'') = Inr desc" by blast
  have da: "own_property n (h @ hs) raw (KStr ''default'') = Inr desc" for hs
    using own_property_of_read[OF Inr ne, of "KStr ''default''" hs] dn by simp
  have dm: "own_property m (h @ hs) raw (KStr ''default'') = Inr desc" for hs
    using da[of hs] assms(4) by (rule own_property_mono)
  show ?thesis
  proof (cases "truthy esm")
    case False
    have "js_get (Suc m) (h @ [InteropProxy raw (Ref raw)]) (length h) (KStr ''default'') = Inr (Ref raw)"
      if "\<not> holds_other_default n h raw"
      using that dn dm[of "[InteropProxy raw (Ref raw)]"]
      by (simp add: holds_other_default_def nth_append)
    with assms Inr False show ?thesis
      by (simp add: nodeRequire_def del: js_get.simps split: prod.splits)
  next
    case True
    show ?thesis
    proof (cases "js_get n h raw (KStr ''default'')")
      case (Inl e)
      with assms Inr True show ?thesis by (simp add: nodeRequire_def split: prod.splits)
    next
      case d: (Inr d)
      note nr = read_default_not_refused[OF d dn]
      have "js_get (Suc m) (h @ [InteropProxy raw d]) (length h) (KStr ''default'') = Inr d"
        using nr dm[of "[InteropProxy raw d]"] by (simp add: nth_append)
      with assms Inr True d show ?thesis
        by (simp add: nodeRequire_def del: js_get.simps split: prod.splits)
    qed
  qed
qed

theorem nodeRequire_default_by_convention_witness:
  "fst (nodeRequire (Suc 0) exampleEnv ''leftpad'' None ''/r'' markedHeap Map.empty) = Inr (Ref 1) \<and>
   js_get (Suc (Suc 0)) (fst (snd (nodeRequire (Suc 0) exampleEnv ''leftpad'' None ''/r'' markedHeap Map.empty)))
     1 (KStr ''default'') = js_get (Suc 0) markedHeap 0 (KStr ''default'') \<and>
   js_get (Suc 0) markedHeap 0 (KStr ''default'') = Inr (Num 7) \<and>
   fst (nodeRequire (Suc 0) exampleEnv ''leftpad'' None ''/r'' legacyHeap Map.empty) = Inr (Ref 1) \<and>
   \<not> holds_other_default (Suc 0) legacyHeap 0 \<and>
   js_get (Suc (Suc 0)) (fst (snd (nodeRequire (Suc 0) exampleEnv ''leftpad'' None ''/r'' legacyHeap Map.empty)))
     1 (KStr ''default'') = Inr (Ref 0)"
proof -
  have a: "fst (nodeRequire (Suc 0) exampleEnv ''leftpad'' None ''/r'' markedHeap Map.empty) = Inr (Ref 1)"
    by (simp add: nodeRequire_def resolve_def cache_key_def importer_text_def exampleEnv_def
          markedHeap_def)
  have e: "js_get (Suc 0) markedHeap 0 (KStr ''__esModule'') = Inr (Bool True)"
    by (simp add: markedHeap_def)
  have len: "length markedHeap = Suc 0" by (simp add: markedHeap_def)
  have le: "Suc 0 \<le> Suc 0" by simp
  from nodeRequire_default_by_convention[OF a exampleEnv_resolve_leftpad exampleEnv_require_leftpad le]
  have m: "js_get (Suc (Suc 0)) (fst (snd (nodeRequire (Suc 0) exampleEnv ''leftpad'' None ''/r'' markedHeap Map.empty)))
     1 (KStr ''default'') = js_get (Suc 0) markedHeap 0 (KStr ''default'')"
    by (simp add: e len del: js_get.simps)
  have v: "js_get (Suc 0) markedHeap 0 (KStr ''default'') = Inr (Num 7)"
    by (simp add: markedHeap_def)
  have a': "fst (nodeRequire (Suc 0) exampleEnv ''leftpad'' None ''/r'' legacyHeap Map.empty) = Inr (Ref 1)"
    by (simp add: nodeRequire_def resolve_def cache_key_def importer_text_def exampleEnv_def
          legacyHeap_def)
  have e': "js_get (Suc 0) legacyHeap 0 (KStr ''__esModule'') = Inr Undefined"
    by (simp add: legacyHeap_def)
  have len': "length legacyHeap = Suc 0" by (simp add: legacyHeap_def)
  have nr': "\<not> holds_other_default (Suc 0) legacyHeap 0"
    by (simp add: holds_other_default_def trap_refused_def legacyHeap_def)
  from nodeRequire_default_by_convention[OF a' exampleEnv_resolve_leftpad exampleEnv_require_leftpad le] nr'
  have l: "js_get (Suc (Suc 0)) (fst (snd (nodeRequire (Suc 0) exampleEnv ''leftpad'' None ''/r'' legacyHeap Map.empty)))
     1 (KStr ''default'') = Inr (Ref 0)"
    by (simp add: e' len' del: js_get.simps)
  from a m v a' nr' l show ?thesis by simp
qed

text \<open>
  C8 fails on two triples whose concatenations agree. Resolving \<^verbatim>\<open>lodash\<close> from importer
  \<^verbatim>\<open>/es/a.js\<close> caches its path under the key \<^verbatim>\<open>lodash/es/a.js/r\<close>; resolving \<^verbatim>\<open>lodash/es\<close> from
  importer \<^verbatim>\<open>/a.js\<close> then has the same key and returns that path, not the path the search
  gives for it.
\<close>

theorem resolve_key_collision:
  "resolve exampleEnv ''lodash'' (Some ''/es/a.js'') ''/r'' Map.empty =
     (Inr ''/r/node_modules/lodash/index.js'',
      [''lodash/es/a.js/r'' \<mapsto> ''/r/node_modules/lodash/index.js'']) \<and>
   fst (resolve exampleEnv ''lodash/es'' (Some ''/a.js'') ''/r''
          [''lodash/es/a.js/r'' \<mapsto> ''/r/node_modules/lodash/index.js'']) =
     Inr ''/r/node_modules/lodash/index.js'' \<and>
   fst (resolve exampleEnv ''lodash/es'' (Some ''/a.js'') ''/r'' Map.empty) =
     Inr ''/r/node_modules/lodash/es/index.js''"
  by (simp add: resolve_def cache_key_def importer_text_def exampleEnv_def)

lemma resolve_cached:
  "cache (cache_key depId importer root) = Some (c # cs) \<Longrightarrow>
   resolve E depId importer root cache = (Inr (c # cs), cache)"
  by (simp add: resolve_def)

lemma resolve_repeat:
  assumes "resolve E depId importer root cache = (Inr p, cache')" and "p \<noteq> []"
  shows "resolve E' depId importer root cache' = (Inr p, cache')"
  using assms
  by (cases p) (auto simp: resolve_def Let_def split: option.splits list.splits sum.splits if_splits)

text \<open>
  C10 as stated fails. The graph of \<open>exampleState\<close> has a node for \<^verbatim>\<open>/n.js\<close> that holds no
  namespace yet (its \<^verbatim>\<open>ssrModule\<close> field is \<^verbatim>\<open>null\<close>), and \<^verbatim>\<open>ssrImport\<close> returns that \<^verbatim>\<open>null\<close>, not
  \<^verbatim>\<open>undefined\<close>.
\<close>

theorem ssrImport_null_counterexample:
  "\<not> isExternal ''/n.js'' \<and>
   urlToModuleMap exampleState (unwrapId exampleEnv ''/n.js'') =
     Some \<lparr> mod_url = ''/n.js'', mod_file = Some ''/r/n.js'', mod_ssrTransformResult = None,
            mod_ssrModule = None \<rparr> \<and>
   ssrImport exampleEnv ''/b.js'' ''/n.js'' exampleState = (Inr Null, exampleState) \<and>
   Null \<noteq> Undefined"
  by (simp add: isExternal_def ssrImport_def exampleEnv_def exampleState_def namespace_value_def)

text \<open>
  C10, amended. For an internal specifier \<^verbatim>\<open>ssrImport\<close> is a look-up: it returns, without
  error and without changing the state (no instantiation, no promise, no pending entry),
  the namespace the module graph holds for the unwrapped specifier, \<^verbatim>\<open>undefined\<close> when the
  graph has no node for it, and \<^verbatim>\<open>null\<close> when the node has no namespace yet.
\<close>

theorem ssrImport_internal:
  assumes "\<not> isExternal dep"
  shows "ssrImport E url dep s =
           (Inr (case urlToModuleMap s (unwrapId E dep) of
                   None \<Rightarrow> Undefined
                 | Some node \<Rightarrow>
                     (case mod_ssrModule node of None \<Rightarrow> Null | Some a \<Rightarrow> Ref a)), s)"
  using assms by (simp add: ssrImport_def namespace_value_def split: option.splits)

theorem ssrImport_internal_witness:
  "\<not> isExternal ''/@id//a.js'' \<and>
   ssrImport exampleEnv ''/b.js'' ''/@id//a.js'' exampleState = (Inr (Ref 0), exampleState) \<and>
   ssrImport exampleEnv ''/b.js'' ''./missing.js'' exampleState = (Inr Undefined, exampleState) \<and>
   ssrImport exampleEnv ''/b.js'' ''/n.js'' exampleState = (Inr Null, exampleState)"
proof -
  have a: "\<not> isExternal ''/@id//a.js''" and b: "\<not> isExternal ''./missing.js''"
    and c: "\<not> isExternal ''/n.js''"
    by (simp_all add: isExternal_def)
  from ssrImport_internal[OF a, of exampleEnv "''/b.js''" exampleState]
       ssrImport_internal[OF b, of exampleEnv "''/b.js''" exampleState]
       ssrImport_internal[OF c, of exampleEnv "''/b.js''" exampleState] a
  show ?thesis
    by (simp add: exampleEnv_def exampleState_def)
qed

text \<open>
  C7 fails on a source with an enumerable \<^verbatim>\<open>__esModule\<close> key. \<open>markedHeap\<close> is such a package;
  \<^verbatim>\<open>nodeRequire\<close> wraps it at address 1, and the \<^verbatim>\<open>for-in\<close> loop over the wrapper visits
  \<^verbatim>\<open>__esModule\<close>, \<^verbatim>\<open>default\<close> and \<^verbatim>\<open>x\<close>. On a new namespace (address 2) \<^verbatim>\<open>ssrExportAll\<close> throws
  at \<^verbatim>\<open>__esModule\<close>, which line 61 made non-configurable, and defines nothing: the source's
  \<^verbatim>\<open>x\<close> is 1, and the namespace has no \<^verbatim>\<open>x\<close>.
\<close>

theorem ssrExportAll_esModule_collision:
  "nodeRequire 1 exampleEnv ''leftpad'' None ''/r'' markedHeap Map.empty =
     (Inr (Ref 1), markedHeap @ [InteropProxy 0 (Num 7)],
      [''leftpadnull/r'' \<mapsto> ''/r/node_modules/leftpad/index.js'']) \<and>
   forInKeys 2 (markedHeap @ [InteropProxy 0 (Num 7), newNamespace]) 1 =
     Inr [''__esModule'', ''default'', ''x''] \<and>
   ssrExportAll 2 (markedHeap @ [InteropProxy 0 (Num 7), newNamespace]) 2 (Ref 1) =
     (Some (TypeError ''Cannot redefine property''),
      markedHeap @ [InteropProxy 0 (Num 7), newNamespace]) \<and>
   js_get 2 (markedHeap @ [InteropProxy 0 (Num 7), newNamespace]) 1 (KStr ''x'') = Inr (Num 1) \<and>
   js_get 2 (markedHeap @ [InteropProxy 0 (Num 7), newNamespace]) 2 (KStr ''x'') = Inr Undefined"
  by (simp add: nodeRequire_def resolve_def cache_key_def importer_text_def exampleEnv_def
        markedHeap_def newNamespace_def ssrExportAll_def defineProperty_def trap_refused_def
        js_get_pos forInKeys_pos own_property_pos key_order_def array_index_def is_digit_def)

lemma isExternal_iff: "isExternal dep \<longleftrightarrow> \<not> internal_specifier dep"
  by (cases dep) (auto simp: isExternal_def internal_specifier_def)

lemma loadDeps_eq:
  "loadDeps load url urlStack ds s =
     load_in_order load (urlStack @ [url]) (filter internal_specifier ds) s"
  by (induction ds arbitrary: s)
     (auto simp: isExternal_iff split: option.splits prod.splits outcome.splits)

lemma ensure_frame [simp]:
  "pendingModules (snd (ensureEntryFromUrl E u s)) = pendingModules s"
  "promises (snd (ensureEntryFromUrl E u s)) = promises s"
  "cleanups (snd (ensureEntryFromUrl E u s)) = cleanups s"
  "st_heap (snd (ensureEntryFromUrl E u s)) = st_heap s"
  "resolveCache (snd (ensureEntryFromUrl E u s)) = resolveCache s"
  by (simp_all add: ensureEntryFromUrl_def Let_def split: option.splits)

lemma front_result:
  assumes "ssrLoadModule_front E url0 st s = (r, s')"
  shows "(unwrapId E url0 \<in> set st \<and>
            r = Cycle (namespace_value (mod_ssrModule (fst (ensureEntryFromUrl E (unwrapId E url0) s)))) \<and>
            s' = snd (ensureEntryFromUrl E (unwrapId E url0) s)) \<or>
         (unwrapId E url0 \<notin> set st \<and>
            (\<exists>p. pendingModules s (unwrapId E url0) = Some p \<and> r = Joined p) \<and>
            s' = snd (ensureEntryFromUrl E (unwrapId E url0) s)) \<or>
         (unwrapId E url0 \<notin> set st \<and> pendingModules s (unwrapId E url0) = None \<and>
            r = Started (length (promises s)) \<and>
            s' = (snd (ensureEntryFromUrl E (unwrapId E url0) s))
                   \<lparr> promises := promises s @ [(unwrapId E url0, Unsettled)],
                      pendingModules := (pendingModules s)(unwrapId E url0 \<mapsto> length (promises s)),
                      cleanups := cleanups s @ [(length (promises s), unwrapId E url0)] \<rparr>)"
  using assms
  by (auto simp: ssrLoadModule_front_def Let_def case_prod_unfold split: option.splits if_splits)

lemma pending_inv_front:
  assumes "pending_inv s"
  shows "pending_inv (snd (ssrLoadModule_front E url0 st s))"
proof -
  obtain r s' where f: "ssrLoadModule_front E url0 st s = (r, s')" by (cases "ssrLoadModule_front E url0 st s")
  from front_result[OF f] show ?thesis
  proof (elim disjE conjE exE)
    assume "s' = snd (ensureEntryFromUrl E (unwrapId E url0) s)"
    with assms f show ?thesis by (simp add: pending_inv_def)
  next
    fix p assume "s' = snd (ensureEntryFromUrl E (unwrapId E url0) s)"
    with assms f show ?thesis by (simp add: pending_inv_def)
  next
    assume n: "pendingModules s (unwrapId E url0) = None"
      and s': "s' = (snd (ensureEntryFromUrl E (unwrapId E url0) s))
                   \<lparr> promises := promises s @ [(unwrapId E url0, Unsettled)],
                      pendingModules := (pendingModules s)(unwrapId E url0 \<mapsto> length (promises s)),
                      cleanups := cleanups s @ [(length (promises s), unwrapId E url0)] \<rparr>"
    from assms n have "pending_inv s'"
      unfolding s' pending_inv_def
      by (auto simp: nth_append less_Suc_eq)
    with f show ?thesis by simp
  qed
qed

lemma settle_frame [simp]:
  "pendingModules (settle p r s) = pendingModules s"
  "cleanups (settle p r s) = cleanups s"
  "st_heap (settle p r s) = st_heap s"
  "urlToModuleMap (settle p r s) = urlToModuleMap s"
  "resolveCache (settle p r s) = resolveCache s"
  "length (promises (settle p r s)) = length (promises s)"
  by (cases r; simp add: settle_def)+

lemma settle_fst [simp]: "fst (promises (settle p r s) ! q) = fst (promises s ! q)"
  by (cases r; cases "p < length (promises s)"; cases "q = p"; simp add: settle_def list_update_beyond)

lemma settle_unsettled:
  "snd (promises (settle p r s) ! q) = Unsettled \<Longrightarrow> snd (promises s ! q) = Unsettled"
  by (cases r; cases "p < length (promises s)"; cases "q = p"; simp add: settle_def list_update_beyond)

lemma pending_inv_settle:
  assumes "pending_inv s"
  shows "pending_inv (settle p r s)"
  using assms unfolding pending_inv_def
  by (auto dest: settle_unsettled)

lemma pending_inv_cleanup:
  assumes "pending_inv s" and "(p, url) \<in> set (cleanups s)" and "p < length (promises s)"
    and "snd (promises s ! p) \<noteq> Unsettled"
  shows "pending_inv (run_cleanup p url s)"
proof -
  from assms have pu: "pendingModules s url = Some p" by (auto simp: pending_inv_def)
  have a: "\<forall>q < length (promises s). snd (promises s ! q) = Unsettled \<longrightarrow> fst (promises s ! q) \<noteq> url"
  proof (intro allI impI)
    fix q assume "q < length (promises s)" "snd (promises s ! q) = Unsettled"
    with assms(1) have "pendingModules s (fst (promises s ! q)) = Some q" by (simp add: pending_inv_def)
    with pu assms(4) \<open>snd (promises s ! q) = Unsettled\<close> show "fst (promises s ! q) \<noteq> url" by auto
  qed
  have b: "\<forall>c \<in> set (remove1 (p, url) (cleanups s)). snd c \<noteq> url"
  proof
    fix c assume c: "c \<in> set (remove1 (p, url) (cleanups s))"
    from assms(1) have d: "distinct (cleanups s)" by (simp add: pending_inv_def)
    from c d have "c \<in> set (cleanups s)" "c \<noteq> (p, url)" by auto
    with assms(1) pu show "snd c \<noteq> url" by (cases c) (auto simp: pending_inv_def)
  qed
  from assms(1) a b show ?thesis
    unfolding pending_inv_def run_cleanup_def
    by (auto dest: notin_set_remove1)
qed

lemma pending_inv_event:
  assumes "pending_inv s" and "apply_event E e s = Some s'"
  shows "pending_inv s'"
proof (cases e)
  case (Call u st)
  with assms pending_inv_front[OF assms(1), of E u st] show ?thesis by auto
next
  case (Work f)
  with assms show ?thesis by (fastforce simp: pending_inv_def)
next
  case (Settle p r)
  with assms pending_inv_settle[OF assms(1), of p r] show ?thesis by (auto split: if_splits)
next
  case (Cleanup p u)
  with assms pending_inv_cleanup[OF assms(1), of p u] show ?thesis by (auto split: if_splits)
qed

lemma pending_inv_run:
  assumes "pending_inv s" and "run_events E es s = Some s'"
  shows "pending_inv s'"
  using assms
  by (induction es arbitrary: s) (auto split: option.splits dest: pending_inv_event)

lemma idle_inv: "idle s \<Longrightarrow> pending_inv s"
  by (simp add: idle_def pending_inv_def)

lemma at_most_one_in_flight:
  assumes "pending_inv s" and "in_flight s url p" and "in_flight s url q"
  shows "p = q"
proof -
  from assms(2) have "p < length (promises s)" "snd (promises s ! p) = Unsettled" "fst (promises s ! p) = url"
    by (simp_all add: in_flight_def)
  with assms(1) have p: "pendingModules s url = Some p" by (auto simp: pending_inv_def)
  from assms(3) have "q < length (promises s)" "snd (promises s ! q) = Unsettled" "fst (promises s ! q) = url"
    by (simp_all add: in_flight_def)
  with assms(1) have "pendingModules s url = Some q" by (auto simp: pending_inv_def)
  with p show ?thesis by simp
qed

lemma settle_other: "q \<noteq> p \<Longrightarrow> promises (settle q r s) ! p = promises s ! p"
  by (cases r) (simp_all add: settle_def)

lemma map_fst_settle: "map fst (promises (settle q r s)) = map fst (promises s)"
  by (rule nth_equalityI) simp_all

lemma instantiations_map: "instantiations s url = length (filter (\<lambda>u. u = url) (map fst (promises s)))"
  by (simp add: instantiations_def filter_map comp_def)

lemma instantiations_settle [simp]: "instantiations (settle q r s) url = instantiations s url"
  by (simp add: instantiations_map map_fst_settle)

lemma held_event:
  assumes h: "held i p url s" and e: "apply_event E e s = Some s'" and ns: "\<forall>r. e \<noteq> Settle p r"
  shows "held i p url s'"
proof -
  from h have inv: "pending_inv s" and pu: "pendingModules s url = Some p"
    and fl: "p < length (promises s)" "promises s ! p = (url, Unsettled)"
    and cnt: "instantiations s url = i"
    by (simp_all add: held_def in_flight_def)
  have inv': "pending_inv s'" using inv e by (rule pending_inv_event)
  show ?thesis
  proof (cases e)
    case (Call u st)
    obtain r where f: "ssrLoadModule_front E u st s = (r, s')"
      using e Call by (cases "ssrLoadModule_front E u st s") auto
    from front_result[OF f] show ?thesis
    proof (elim disjE conjE exE)
      assume "s' = snd (ensureEntryFromUrl E (unwrapId E u) s)"
      with inv' pu fl cnt show ?thesis by (simp add: held_def in_flight_def instantiations_def)
    next
      fix q assume "s' = snd (ensureEntryFromUrl E (unwrapId E u) s)"
      with inv' pu fl cnt show ?thesis by (simp add: held_def in_flight_def instantiations_def)
    next
      assume n: "pendingModules s (unwrapId E u) = None"
        and s': "s' = (snd (ensureEntryFromUrl E (unwrapId E u) s))
                   \<lparr> promises := promises s @ [(unwrapId E u, Unsettled)],
                      pendingModules := (pendingModules s)(unwrapId E u \<mapsto> length (promises s)),
                      cleanups := cleanups s @ [(length (promises s), unwrapId E u)] \<rparr>"
      from n pu have ne: "unwrapId E u \<noteq> url" by auto
      with inv' pu fl cnt show ?thesis
        unfolding s' by (simp add: held_def in_flight_def instantiations_def nth_append)
    qed
  next
    case (Work f)
    with e inv' pu fl cnt show ?thesis
      by (auto simp: held_def in_flight_def instantiations_def)
  next
    case (Settle q r)
    with ns have "q \<noteq> p" by auto
    with Settle e inv' pu fl cnt show ?thesis
      by (auto simp: held_def in_flight_def settle_other split: if_splits)
  next
    case (Cleanup q u)
    with e have en: "(q, u) \<in> set (cleanups s)" "snd (promises s ! q) \<noteq> Unsettled"
      and s': "s' = run_cleanup q u s"
      by (auto split: if_splits)
    from inv en(1) have "pendingModules s u = Some q" by (auto simp: pending_inv_def)
    with pu en(2) fl have "u \<noteq> url" by auto
    with s' inv' pu fl cnt show ?thesis
      by (simp add: held_def in_flight_def instantiations_def run_cleanup_def)
  qed
qed

lemma held_run:
  assumes "held i p url s" and "run_events E es s = Some s'" and "\<forall>r. Settle p r \<notin> set es"
  shows "held i p url s'"
  using assms
proof (induction es arbitrary: s)
  case Nil
  then show ?case by simp
next
  case (Cons e es)
  from Cons.prems(2) obtain s1 where e: "apply_event E e s = Some s1" and r: "run_events E es s1 = Some s'"
    by (auto split: option.splits)
  from Cons.prems(3) have "\<forall>r. e \<noteq> Settle p r" "\<forall>r. Settle p r \<notin> set es" by auto
  with Cons.IH[OF held_event[OF Cons.prems(1) e] r] show ?case by simp
qed

lemma held_first:
  assumes "pending_inv s" and "pendingModules s (unwrapId E url0) = None"
  shows "fst (ssrLoadModule_front E url0 [] s) = Started (length (promises s))"
    and "held (Suc (instantiations s (unwrapId E url0))) (length (promises s)) (unwrapId E url0)
           (snd (ssrLoadModule_front E url0 [] s))"
proof -
  obtain r s' where f: "ssrLoadModule_front E url0 [] s = (r, s')"
    by (cases "ssrLoadModule_front E url0 [] s")
  from front_result[OF f] assms(2)
  have r: "r = Started (length (promises s))"
    and s': "s' = (snd (ensureEntryFromUrl E (unwrapId E url0) s))
                   \<lparr> promises := promises s @ [(unwrapId E url0, Unsettled)],
                      pendingModules := (pendingModules s)(unwrapId E url0 \<mapsto> length (promises s)),
                      cleanups := cleanups s @ [(length (promises s), unwrapId E url0)] \<rparr>"
    by auto
  from f r show "fst (ssrLoadModule_front E url0 [] s) = Started (length (promises s))" by simp
  from pending_inv_front[OF assms(1), of E url0 "[]"] f have "pending_inv s'" by simp
  then show "held (Suc (instantiations s (unwrapId E url0))) (length (promises s)) (unwrapId E url0)
           (snd (ssrLoadModule_front E url0 [] s))"
    unfolding f snd_conv unfolding s'
    by (simp add: held_def in_flight_def instantiations_def)
qed

lemma held_joined:
  assumes "held i p url s" and "unwrapId E url0 = url"
  shows "fst (ssrLoadModule_front E url0 [] s) = Joined p"
    and "instantiations (snd (ssrLoadModule_front E url0 [] s)) url = i"
proof -
  obtain r s' where f: "ssrLoadModule_front E url0 [] s = (r, s')"
    by (cases "ssrLoadModule_front E url0 [] s")
  from assms have pu: "pendingModules s (unwrapId E url0) = Some p" and c: "instantiations s url = i"
    by (simp_all add: held_def)
  from front_result[OF f] pu have "r = Joined p" "s' = snd (ensureEntryFromUrl E (unwrapId E url0) s)"
    by auto
  with f c show "fst (ssrLoadModule_front E url0 [] s) = Joined p"
    and "instantiations (snd (ssrLoadModule_front E url0 [] s)) url = i"
    by (simp_all add: instantiations_def)
qed

lemma single_flight_table:
  assumes "idle s0" and "run_events E es0 s0 = Some s"
    and "pendingModules s (unwrapId E url0) = None"
    and "run_events E (Call url0 [] # es) s = Some s2"
    and "\<forall>r. Settle (length (promises s)) r \<notin> set es"
  shows "fst (ssrLoadModule_front E url0 [] s) = Started (length (promises s)) \<and>
         fst (ssrLoadModule_front E url0 [] s2) = Joined (length (promises s)) \<and>
         instantiations (snd (ssrLoadModule_front E url0 [] s2)) (unwrapId E url0) =
           Suc (instantiations s (unwrapId E url0)) \<and>
         (\<forall>url p q. in_flight s2 url p \<and> in_flight s2 url q \<longrightarrow> p = q)"
proof -
  have inv: "pending_inv s" using idle_inv[OF assms(1)] assms(2) by (rule pending_inv_run)
  from assms(4) have r: "run_events E es (snd (ssrLoadModule_front E url0 [] s)) = Some s2"
    by simp
  note h1 = held_first[OF inv assms(3)]
  have h2: "held (Suc (instantiations s (unwrapId E url0))) (length (promises s)) (unwrapId E url0) s2"
    using h1(2) r assms(5) by (rule held_run)
  from h2 have inv2: "pending_inv s2" by (simp add: held_def)
  from h1(1) held_joined[OF h2 refl] at_most_one_in_flight[OF inv2] show ?thesis by blast
qed

section \<open>Loads only extend the state\<close>

lemma extends_refl [simp]: "extends s s"
  by (simp add: extends_def)

lemma extends_trans: "extends s s1 \<Longrightarrow> extends s1 s2 \<Longrightarrow> extends s s2"
  by (auto simp: extends_def)

lemma has_namespace_upd [simp]:
  "has_namespace (s\<lparr>promises := a\<rparr>) = has_namespace s"
  "has_namespace (s\<lparr>pendingModules := b\<rparr>) = has_namespace s"
  "has_namespace (s\<lparr>cleanups := c\<rparr>) = has_namespace s"
  "has_namespace (s\<lparr>st_heap := d\<rparr>) = has_namespace s"
  "has_namespace (s\<lparr>resolveCache := e\<rparr>) = has_namespace s"
  by (simp_all add: has_namespace_def fun_eq_iff)

lemma cached_of_upd [simp]:
  "cached_of (s\<lparr>promises := a\<rparr>) = cached_of s"
  "cached_of (s\<lparr>pendingModules := b\<rparr>) = cached_of s"
  "cached_of (s\<lparr>cleanups := c\<rparr>) = cached_of s"
  "cached_of (s\<lparr>st_heap := d\<rparr>) = cached_of s"
  "cached_of (s\<lparr>resolveCache := e\<rparr>) = cached_of s"
  by (simp_all add: cached_of_def fun_eq_iff)

lemma ensure_node:
  "urlToModuleMap (snd (ensureEntryFromUrl E u s)) u = Some (fst (ensureEntryFromUrl E u s))"
  by (simp add: ensureEntryFromUrl_def Let_def split: option.splits)

lemma ensure_other:
  "v \<noteq> u \<Longrightarrow> urlToModuleMap (snd (ensureEntryFromUrl E u s)) v = urlToModuleMap s v"
  by (simp add: ensureEntryFromUrl_def Let_def split: option.splits)

lemma ensure_idem:
  "urlToModuleMap s u = Some node \<Longrightarrow> ensureEntryFromUrl E u s = (node, s)"
  by (simp add: ensureEntryFromUrl_def)

lemma ensure_has_namespace [simp]:
  "has_namespace (snd (ensureEntryFromUrl E u s)) v = has_namespace s v"
  by (cases "v = u") (auto simp: has_namespace_def ensureEntryFromUrl_def Let_def split: option.splits)

lemma ensure_cached [simp]:
  "cached_of (snd (ensureEntryFromUrl E u s)) = cached_of s"
  by (rule ext) (auto simp: cached_of_def ensureEntryFromUrl_def Let_def split: option.splits)

lemma ensure_fst_cached:
  "mod_ssrTransformResult (fst (ensureEntryFromUrl E u s)) = cached_of s u"
  by (auto simp: cached_of_def ensureEntryFromUrl_def Let_def split: option.splits)

lemma ensure_fst_namespace:
  "(mod_ssrModule (fst (ensureEntryFromUrl E u s)) \<noteq> None) = has_namespace s u"
  by (auto simp: has_namespace_def ensureEntryFromUrl_def Let_def split: option.splits)

lemma extends_ensure: "extends s (snd (ensureEntryFromUrl E u s))"
  by (simp add: extends_def)

lemma extends_front: "extends s (snd (ssrLoadModule_front E url0 st s))"
proof -
  obtain r s' where f: "ssrLoadModule_front E url0 st s = (r, s')"
    by (cases "ssrLoadModule_front E url0 st s")
  from front_result[OF f] have "extends s s'"
    by (elim disjE conjE exE) (simp_all add: extends_def)
  with f show ?thesis by simp
qed

lemma extends_settle: "extends s (settle p r s)"
  by (cases r) (simp_all add: extends_def settle_def)

lemma extends_cleanup: "extends s (run_cleanup p u s)"
  by (simp add: extends_def run_cleanup_def)

lemma ssrImport_frame:
  "urlToModuleMap (snd (ssrImport E url dep s)) = urlToModuleMap s"
  "promises (snd (ssrImport E url dep s)) = promises s"
  "pendingModules (snd (ssrImport E url dep s)) = pendingModules s"
  "cleanups (snd (ssrImport E url dep s)) = cleanups s"
  by (simp_all add: ssrImport_def split: prod.splits)

lemma nodeRequire_heap_length:
  "length h \<le> length (fst (snd (nodeRequire n E depId importer root h cache)))"
  by (simp add: nodeRequire_def split: prod.splits sum.splits js_value.splits)

lemma ssrImport_heap_length:
  "length (st_heap s) \<le> length (st_heap (snd (ssrImport E url dep s)))"
  by (simp add: ssrImport_def case_prod_unfold nodeRequire_heap_length)

lemma defineProperty_length:
  "defineProperty h a k desc = Inr h' \<Longrightarrow> length h' = length h"
  by (auto simp: defineProperty_def split: if_splits heap_obj.splits option.splits)

lemma exportKeys_length: "length (snd (exportKeys h cur src keys)) = length h"
  by (induction keys arbitrary: h) (auto split: sum.splits dest: defineProperty_length)

lemma exportChars_length: "length (snd (exportChars h cur str is)) = length h"
  by (induction "is" arbitrary: h) (auto split: sum.splits dest: defineProperty_length)

lemma ssrExportAll_length: "length (snd (ssrExportAll n h cur v)) = length h"
  by (simp add: ssrExportAll_def exportKeys_length exportChars_length
        split: js_value.splits sum.splits)

lemma strict_assign_length: "strict_assign n h a k v = Inr h' \<Longrightarrow> length h' = length h"
  by (induction n arbitrary: a)
     (auto split: if_splits heap_obj.splits option.splits slot.splits)

lemma catch_block_length [simp]: "length (snd (catch_block E h e)) = length h"
  by (auto simp: catch_block_def split: js_error.splits js_value.splits sum.splits
        dest: strict_assign_length)

lemma assignProp_length [simp]: "length (assignProp h a k v) = length h"
  by (simp add: assignProp_def split: heap_obj.splits option.splits slot.splits)

lemma freeze_length [simp]: "length (freeze h a) = length h"
  by (simp add: freeze_def)

lemma runBody_frame:
  "urlToModuleMap (snd (runBody b E url ns s)) = urlToModuleMap s \<and>
   promises (snd (runBody b E url ns s)) = promises s \<and>
   pendingModules (snd (runBody b E url ns s)) = pendingModules s \<and>
   cleanups (snd (runBody b E url ns s)) = cleanups s \<and>
   length (st_heap s) \<le> length (st_heap (snd (runBody b E url ns s)))"
proof (induction b arbitrary: s)
  case Done
  then show ?case by simp
next
  case (Throw e)
  then show ?case by simp
next
  case (Import dep k)
  obtain r s' where i: "ssrImport E url dep s = (r, s')" by (cases "ssrImport E url dep s")
  from ssrImport_frame[of E url dep s] ssrImport_heap_length[of s E url dep] i
  have "urlToModuleMap s' = urlToModuleMap s" "promises s' = promises s"
    "pendingModules s' = pendingModules s" "cleanups s' = cleanups s"
    "length (st_heap s) \<le> length (st_heap s')" by simp_all
  moreover have "urlToModuleMap (snd (runBody (k r) E url ns s')) = urlToModuleMap s' \<and>
   promises (snd (runBody (k r) E url ns s')) = promises s' \<and>
   pendingModules (snd (runBody (k r) E url ns s')) = pendingModules s' \<and>
   cleanups (snd (runBody (k r) E url ns s')) = cleanups s' \<and>
   length (st_heap s') \<le> length (st_heap (snd (runBody (k r) E url ns s')))"
    by (rule Import.IH) (rule rangeI)
  ultimately show ?case using i by simp
next
  case (ExportAll v k)
  obtain err h' where x: "ssrExportAll (callDepth E) (st_heap s) ns v = (err, h')"
    by (cases "ssrExportAll (callDepth E) (st_heap s) ns v")
  from ssrExportAll_length[of "callDepth E" "st_heap s" ns v] x have "length h' = length (st_heap s)" by simp
  moreover have "urlToModuleMap (snd (runBody (k err) E url ns (s\<lparr>st_heap := h'\<rparr>))) = urlToModuleMap (s\<lparr>st_heap := h'\<rparr>) \<and>
   promises (snd (runBody (k err) E url ns (s\<lparr>st_heap := h'\<rparr>))) = promises (s\<lparr>st_heap := h'\<rparr>) \<and>
   pendingModules (snd (runBody (k err) E url ns (s\<lparr>st_heap := h'\<rparr>))) = pendingModules (s\<lparr>st_heap := h'\<rparr>) \<and>
   cleanups (snd (runBody (k err) E url ns (s\<lparr>st_heap := h'\<rparr>))) = cleanups (s\<lparr>st_heap := h'\<rparr>) \<and>
   length (st_heap (s\<lparr>st_heap := h'\<rparr>)) \<le> length (st_heap (snd (runBody (k err) E url ns (s\<lparr>st_heap := h'\<rparr>))))"
    by (rule ExportAll.IH) (rule rangeI)
  ultimately show ?case using x by simp
next
  case (Assign key v b)
  from Assign.IH[of "s\<lparr>st_heap := assignProp (st_heap s) ns (KStr key) v\<rparr>"] show ?case by simp
qed

lemma extends_same_graph:
  assumes "urlToModuleMap s' = urlToModuleMap s" and "length (promises s) \<le> length (promises s')"
    and "length (st_heap s) \<le> length (st_heap s')"
  shows "extends s s'"
  using assms by (simp add: extends_def has_namespace_def cached_of_def fun_eq_iff)

lemma extends_runBody: "extends s (snd (runBody b E url ns s))"
  using runBody_frame[of b E url ns s] by (intro extends_same_graph) simp_all

lemma extends_evaluate: "extends s (snd (evaluateModule E url ns result s))"
  using runBody_frame[of "code result" E url ns s]
  by (intro extends_same_graph) (auto simp: evaluateModule_def split: prod.splits option.splits)

lemma extends_assign:
  assumes "mod_ssrTransformResult node = cached_of s url"
  shows "extends s (assign_namespace url node s)"
  using assms
  by (auto simp: extends_def assign_namespace_def has_namespace_def cached_of_def fun_eq_iff)

lemma loadDeps_extends:
  assumes "\<And>dep st x r x'. load dep st x = Some (r, x') \<Longrightarrow> extends x x'"
    and "loadDeps load url urlStack ds s = Some (r, s')"
  shows "extends s s'"
  using assms(2)
proof (induction ds arbitrary: s)
  case Nil
  then show ?case by simp
next
  case (Cons d ds)
  show ?case
  proof (cases "isExternal d")
    case True
    with Cons show ?thesis by simp
  next
    case False
    with Cons.prems obtain r1 s1 where l: "load d (urlStack @ [url]) s = Some (r1, s1)"
      by (auto split: option.splits)
    note e1 = assms(1)[OF l]
    show ?thesis
    proof (cases r1)
      case (Returned v)
      with Cons.prems False l have "loadDeps load url urlStack ds s1 = Some (r, s')" by simp
      from extends_trans[OF e1 Cons.IH[OF this]] show ?thesis .
    next
      case (Threw e)
      with Cons.prems False l e1 show ?thesis by simp
    next
      case (Awaiting q)
      with Cons.prems False l e1 show ?thesis by simp
    qed
  qed
qed

lemma instantiate_cases:
  assumes "ensureEntryFromUrl E url s = (node, s1)"
  shows "instantiateModule_body load E url st s =
     (if already_instantiated node s1 then Some (Returned (namespace_value (mod_ssrModule node)), s1)
      else case transform_result_of E url node of
             Inl e \<Rightarrow> Some (Threw e, assign_namespace url node s1)
           | Inr None \<Rightarrow>
               Some (Threw (Error (''failed to load module for ssr: '' @ url)), assign_namespace url node s1)
           | Inr (Some result) \<Rightarrow>
               (case loadDeps load url st (deps result) (assign_namespace url node s1) of
                  None \<Rightarrow> None
                | Some (Returned u, s3) \<Rightarrow> Some (evaluateModule E url (length (st_heap s1)) result s3)
                | Some (r, s3) \<Rightarrow> Some (r, s3)))"
  using assms by (simp add: instantiateModule_body_def Let_def)

lemma instantiate_extends:
  assumes "\<And>dep st x r x'. load dep st x = Some (r, x') \<Longrightarrow> extends x x'"
    and "instantiateModule_body load E url urlStack s = Some (r, s')"
  shows "extends s s'"
proof -
  obtain node s1 where en: "ensureEntryFromUrl E url s = (node, s1)"
    by (cases "ensureEntryFromUrl E url s")
  note ic = instantiate_cases[OF en, of load urlStack]
  have e1: "extends s s1" using extends_ensure[of s E url] en by simp
  have c: "mod_ssrTransformResult node = cached_of s1 url"
    using ensure_fst_cached[of E url s] ensure_cached[of E url s] en by simp
  have e2: "extends s1 (assign_namespace url node s1)" using c by (rule extends_assign)
  have e12: "extends s (assign_namespace url node s1)" using e1 e2 by (rule extends_trans)
  show ?thesis
  proof (cases "already_instantiated node s1")
    case True
    with assms(2) ic e1 show ?thesis by simp
  next
    case False
    show ?thesis
    proof (cases "transform_result_of E url node")
      case (Inl e)
      with assms(2) ic False e12 show ?thesis by simp
    next
      case (Inr t)
      show ?thesis
      proof (cases t)
        case None
        with Inr assms(2) ic False e12 show ?thesis by simp
      next
        case (Some result)
        show ?thesis
        proof (cases "loadDeps load url urlStack (deps result) (assign_namespace url node s1)")
          case None
          with Some Inr assms(2) ic False show ?thesis by simp
        next
          case (Some a)
          obtain r3 s3 where a: "a = (r3, s3)" by (cases a)
          note ld = Some[unfolded a]
          have "extends (assign_namespace url node s1) s3"
            by (rule loadDeps_extends[where load = load, OF _ ld]) (rule assms(1))
          note e3 = extends_trans[OF e12 this]
          show ?thesis
          proof (cases r3)
            case (Returned u)
            with \<open>t = Some result\<close> Inr assms(2) ic False ld
            have "s' = snd (evaluateModule E url (length (st_heap s1)) result s3)"
              by (simp add: snd_def split: prod.splits)
            with e3 extends_evaluate[of s3 E url "length (st_heap s1)" result]
            show ?thesis by (auto intro: extends_trans)
          next
            case (Threw e)
            with \<open>t = Some result\<close> Inr assms(2) ic False ld e3 show ?thesis by simp
          next
            case (Awaiting q)
            with \<open>t = Some result\<close> Inr assms(2) ic False ld e3 show ?thesis by simp
          qed
        qed
      qed
    qed
  qed
qed

lemma load_extends:
  "ssrLoadModule n E url0 st s = Some (r, s') \<Longrightarrow> extends s s'"
proof (induction n arbitrary: url0 st s r s')
  case 0
  then show ?case by simp
next
  case (Suc n)
  obtain f s1 where fr: "ssrLoadModule_front E url0 st s = (f, s1)"
    by (cases "ssrLoadModule_front E url0 st s")
  have e1: "extends s s1" using extends_front[of s E url0 st] fr by simp
  show ?case
  proof (cases f)
    case (Cycle v)
    with Suc.prems fr e1 show ?thesis by simp
  next
    case (Joined p)
    with Suc.prems fr e1 show ?thesis by simp
  next
    case (Started p)
    with Suc.prems fr obtain r2 s2 where
      i: "instantiateModule_body (ssrLoadModule n E) E (unwrapId E url0) st s1 = Some (r2, s2)"
      by (auto split: option.splits)
    have e2: "extends s1 s2" using Suc.IH i by (rule instantiate_extends)
    show ?thesis
    proof (cases r2)
      case (Awaiting q)
      with Suc.prems fr Started i e1 e2 show ?thesis by (auto intro: extends_trans)
    next
      case (Returned v)
      with Suc.prems fr Started i
      have "s' = run_cleanup p (unwrapId E url0) (settle p r2 s2)" by auto
      with e1 e2 extends_settle[of s2 p r2] extends_cleanup[of "settle p r2 s2" p "unwrapId E url0"]
      show ?thesis by (blast intro: extends_trans)
    next
      case (Threw e)
      with Suc.prems fr Started i
      have "s' = run_cleanup p (unwrapId E url0) (settle p r2 s2)" by auto
      with e1 e2 extends_settle[of s2 p r2] extends_cleanup[of "settle p r2 s2" p "unwrapId E url0"]
      show ?thesis by (blast intro: extends_trans)
    qed
  qed
qed

section \<open>Cycles\<close>

lemma stack_live_extends: "extends s s' \<Longrightarrow> stack_live s st \<Longrightarrow> stack_live s' st"
  by (auto simp: extends_def stack_live_def list_all_iff)

lemma loadDeps_guard:
  assumes mono: "\<And>dep st x r x'. load dep st x = Some (r, x') \<Longrightarrow> extends x x'"
    and agree: "\<And>dep st x. stack_live x st \<Longrightarrow> load' dep st x = load dep st x"
    and live: "stack_live s (urlStack @ [url])"
  shows "loadDeps (guard_live load') url urlStack ds s = loadDeps load url urlStack ds s"
  using live
proof (induction ds arbitrary: s)
  case Nil
  then show ?case by simp
next
  case (Cons d ds)
  show ?case
  proof (cases "isExternal d")
    case True
    with Cons show ?thesis by simp
  next
    case False
    have g: "guard_live load' d (urlStack @ [url]) s = load d (urlStack @ [url]) s"
      using Cons.prems agree by (simp add: guard_live_def)
    show ?thesis
    proof (cases "load d (urlStack @ [url]) s")
      case None
      with False g show ?thesis by simp
    next
      case (Some a)
      obtain r1 s1 where a: "a = (r1, s1)" by (cases a)
      from mono Some a have "extends s s1" by blast
      then have "stack_live s1 (urlStack @ [url])" using Cons.prems by (rule stack_live_extends)
      from Cons.IH[OF this] False g Some a show ?thesis by (cases r1) simp_all
    qed
  qed
qed

lemma stack_live_assign:
  assumes "stack_live s st" and "mod_ssrTransformResult node = cached_of s url"
  shows "stack_live (assign_namespace url node s) (st @ [url])"
proof -
  have "has_namespace (assign_namespace url node s) url"
    by (simp add: has_namespace_def assign_namespace_def)
  moreover have "stack_live (assign_namespace url node s) st"
    using extends_assign[OF assms(2)] assms(1) by (rule stack_live_extends)
  ultimately show ?thesis by (simp add: stack_live_def)
qed

lemma instantiate_guard:
  assumes mono: "\<And>dep st x r x'. load dep st x = Some (r, x') \<Longrightarrow> extends x x'"
    and agree: "\<And>dep st x. stack_live x st \<Longrightarrow> load' dep st x = load dep st x"
    and live: "stack_live s urlStack"
  shows "instantiateModule_body (guard_live load') E url urlStack s =
         instantiateModule_body load E url urlStack s"
proof -
  obtain node s1 where en: "ensureEntryFromUrl E url s = (node, s1)"
    by (cases "ensureEntryFromUrl E url s")
  have l1: "stack_live s1 urlStack"
    using extends_ensure[of s E url] en live by (auto intro: stack_live_extends)
  have c: "mod_ssrTransformResult node = cached_of s1 url"
    using ensure_fst_cached[of E url s] ensure_cached[of E url s] en by simp
  have eq: "loadDeps (guard_live load') url urlStack ds (assign_namespace url node s1) =
        loadDeps load url urlStack ds (assign_namespace url node s1)" for ds
    by (rule loadDeps_guard[where load = load])
       (rule mono, assumption, rule agree, assumption, rule stack_live_assign[OF l1 c])
  show ?thesis
    unfolding instantiate_cases[OF en] eq ..
qed

lemma checked_eq:
  "stack_live s st \<Longrightarrow> ssrLoadModule_checked n E url0 st s = ssrLoadModule n E url0 st s"
proof (induction n arbitrary: url0 st s)
  case 0
  then show ?case by simp
next
  case (Suc n)
  obtain f s1 where fr: "ssrLoadModule_front E url0 st s = (f, s1)"
    by (cases "ssrLoadModule_front E url0 st s")
  have l1: "stack_live s1 st"
    using extends_front[of s E url0 st] fr Suc.prems by (auto intro: stack_live_extends)
  have "instantiateModule_body (guard_live (ssrLoadModule_checked n E)) E (unwrapId E url0) st s1 =
        instantiateModule_body (ssrLoadModule n E) E (unwrapId E url0) st s1"
    by (rule instantiate_guard[where load = "ssrLoadModule n E"])
       (rule load_extends, assumption, rule Suc.IH, assumption, rule l1)
  with fr show ?case by (cases f) simp_all
qed

lemma cycle_returns:
  assumes "unwrapId E url0 \<in> set urlStack"
  shows "ssrLoadModule (Suc n) E url0 urlStack s =
           Some (Returned (namespace_value (mod_ssrModule (fst (ensureEntryFromUrl E (unwrapId E url0) s)))),
                 snd (ensureEntryFromUrl E (unwrapId E url0) s))"
  using assms by (simp add: ssrLoadModule_front_def Let_def case_prod_unfold)

lemma has_namespace_node:
  "has_namespace s u \<Longrightarrow> \<exists>node a. urlToModuleMap s u = Some node \<and> mod_ssrModule node = Some a"
  by (auto simp: has_namespace_def split: option.splits)

lemma cycle_live:
  assumes "unwrapId E url0 \<in> set urlStack" and "stack_live s urlStack"
  shows "\<exists>node a. urlToModuleMap s (unwrapId E url0) = Some node \<and> mod_ssrModule node = Some a \<and>
           ssrLoadModule (Suc n) E url0 urlStack s = Some (Returned (Ref a), s)"
proof -
  from assms have "has_namespace s (unwrapId E url0)" by (auto simp: stack_live_def list_all_iff)
  then obtain node a where n: "urlToModuleMap s (unwrapId E url0) = Some node" "mod_ssrModule node = Some a"
    by (auto dest: has_namespace_node)
  from ensure_idem[OF n(1), of E] cycle_returns[OF assms(1), of n s] n
  show ?thesis by (simp add: namespace_value_def)
qed

lemma import_live:
  assumes "\<not> isExternal dep" and "unwrapId E dep \<in> set urlStack" and "stack_live s urlStack"
  shows "\<exists>a. ssrImport E url dep s = (Inr (Ref a), s)"
proof -
  from assms have "has_namespace s (unwrapId E dep)" by (auto simp: stack_live_def list_all_iff)
  then obtain node a where "urlToModuleMap s (unwrapId E dep) = Some node" "mod_ssrModule node = Some a"
    by (auto dest: has_namespace_node)
  with assms(1) show ?thesis by (simp add: ssrImport_def namespace_value_def)
qed

section \<open>Termination on finite module graphs\<close>

lemma effective_transform_extends:
  "extends s s' \<Longrightarrow> effective_transform E s' = effective_transform E s"
  by (rule ext) (simp add: effective_transform_def extends_def)

lemma deps_closed_extends: "extends s s' \<Longrightarrow> deps_closed E s U \<Longrightarrow> deps_closed E s' U"
  by (simp add: deps_closed_def effective_transform_extends)

lemma transform_result_of_ensure:
  "transform_result_of E url (fst (ensureEntryFromUrl E url s)) = effective_transform E s url"
  by (simp add: transform_result_of_def effective_transform_def ensure_fst_cached)

lemma loadDeps_total:
  assumes mono: "\<And>dep st x r x'. load dep st x = Some (r, x') \<Longrightarrow> extends x x'"
    and total: "\<And>dep x. dep \<in> set ds \<Longrightarrow> \<not> isExternal dep \<Longrightarrow> extends base x \<Longrightarrow>
                  \<exists>r x'. load dep (urlStack @ [url]) x = Some (r, x')"
    and "extends base s"
  shows "\<exists>r s'. loadDeps load url urlStack ds s = Some (r, s')"
  using total assms(3)
proof (induction ds arbitrary: s)
  case Nil
  then show ?case by simp
next
  case (Cons d ds)
  have ih: "extends base x \<Longrightarrow> \<exists>r s'. loadDeps load url urlStack ds x = Some (r, s')" for x
    by (rule Cons.IH) (auto intro: Cons.prems(1))
  show ?case
  proof (cases "isExternal d")
    case True
    with ih[OF Cons.prems(2)] show ?thesis by simp
  next
    case False
    with Cons.prems(1)[of d s] Cons.prems(2)
    obtain r1 s1 where l: "load d (urlStack @ [url]) s = Some (r1, s1)" by auto
    from mono[OF l] Cons.prems(2) have "extends base s1" by (auto intro: extends_trans)
    from ih[OF this] False l show ?thesis by (cases r1) simp_all
  qed
qed

lemma evaluate_total: "\<exists>r s'. evaluateModule E url ns result s = (r, s')"
  by (cases "evaluateModule E url ns result s") simp

lemma instantiate_total:
  assumes mono: "\<And>dep st x r x'. load dep st x = Some (r, x') \<Longrightarrow> extends x x'"
    and total: "\<And>result dep x. effective_transform E s url = Inr (Some result) \<Longrightarrow>
                  dep \<in> set (deps result) \<Longrightarrow> \<not> isExternal dep \<Longrightarrow> extends s x \<Longrightarrow>
                  \<exists>r x'. load dep (urlStack @ [url]) x = Some (r, x')"
  shows "\<exists>r s'. instantiateModule_body load E url urlStack s = Some (r, s')"
proof -
  obtain node s1 where en: "ensureEntryFromUrl E url s = (node, s1)"
    by (cases "ensureEntryFromUrl E url s")
  note ic = instantiate_cases[OF en, of load urlStack]
  have e1: "extends s s1" using extends_ensure[of s E url] en by simp
  have c: "mod_ssrTransformResult node = cached_of s1 url"
    using ensure_fst_cached[of E url s] ensure_cached[of E url s] en by simp
  have e12: "extends s (assign_namespace url node s1)"
    using e1 extends_assign[OF c] by (rule extends_trans)
  have tr: "transform_result_of E url node = effective_transform E s url"
    using transform_result_of_ensure[of E url s] en by simp
  show ?thesis
  proof (cases "already_instantiated node s1")
    case True
    with ic show ?thesis by simp
  next
    case False
    show ?thesis
    proof (cases "transform_result_of E url node")
      case (Inl e)
      with ic False show ?thesis by simp
    next
      case (Inr t)
      show ?thesis
      proof (cases t)
        case None
        with Inr ic False show ?thesis by simp
      next
        case (Some result)
        have "\<exists>r s'. loadDeps load url urlStack (deps result) (assign_namespace url node s1) = Some (r, s')"
        proof (rule loadDeps_total[where load = load and base = s])
          show "\<And>dep st x r x'. load dep st x = Some (r, x') \<Longrightarrow> extends x x'" by (rule mono)
          have et: "effective_transform E s url = Inr (Some result)" using tr Inr Some by simp
          show "\<And>dep x. dep \<in> set (deps result) \<Longrightarrow> \<not> isExternal dep \<Longrightarrow> extends s x \<Longrightarrow>
                  \<exists>r x'. load dep (urlStack @ [url]) x = Some (r, x')"
            by (rule total[OF et])
          show "extends s (assign_namespace url node s1)" by (rule e12)
        qed
        then obtain r3 s3 where
          ld: "loadDeps load url urlStack (deps result) (assign_namespace url node s1) = Some (r3, s3)"
          by auto
        with Some Inr ic False evaluate_total[of E url "length (st_heap s1)" result s3]
        show ?thesis by (cases r3) auto
      qed
    qed
  qed
qed

lemma load_terminates:
  assumes "finite U"
  shows "deps_closed E s U \<Longrightarrow> unwrapId E url0 \<in> U \<Longrightarrow> set st \<subseteq> U \<Longrightarrow> card (U - set st) < n \<Longrightarrow>
         \<exists>r s'. ssrLoadModule n E url0 st s = Some (r, s')"
proof (induction n arbitrary: url0 st s)
  case 0
  then show ?case by simp
next
  case (Suc n)
  obtain f s1 where fr: "ssrLoadModule_front E url0 st s = (f, s1)"
    by (cases "ssrLoadModule_front E url0 st s")
  have e1: "extends s s1" using extends_front[of s E url0 st] fr by simp
  show ?case
  proof (cases f)
    case (Cycle v)
    with fr show ?thesis by simp
  next
    case (Joined p)
    with fr show ?thesis by simp
  next
    case (Started p)
    with front_result[OF fr] have notin: "unwrapId E url0 \<notin> set st" by auto
    let ?url = "unwrapId E url0"
    have sub: "set (st @ [?url]) \<subseteq> U" using Suc.prems by simp
    have eq: "U - set (st @ [?url]) = (U - set st) - {?url}" by auto
    have "finite (U - set st)" using assms by simp
    moreover have "?url \<in> U - set st" using Suc.prems notin by simp
    ultimately have "card ((U - set st) - {?url}) < card (U - set st)"
      by (rule card_Diff1_less)
    then have "card (U - set (st @ [?url])) < card (U - set st)"
      unfolding eq .
    with Suc.prems have cd: "card (U - set (st @ [?url])) < n" by simp
    have cl1: "deps_closed E s1 U" using e1 Suc.prems(1) by (rule deps_closed_extends)
    have "\<exists>r s'. instantiateModule_body (ssrLoadModule n E) E ?url st s1 = Some (r, s')"
    proof (rule instantiate_total)
      show "\<And>dep st x r x'. ssrLoadModule n E dep st x = Some (r, x') \<Longrightarrow> extends x x'"
        by (rule load_extends)
    next
      fix result dep x
      assume t: "effective_transform E s1 ?url = Inr (Some result)" and d: "dep \<in> set (deps result)"
        and i: "\<not> isExternal dep" and x: "extends s1 x"
      from cl1 Suc.prems(2) t d i have "unwrapId E dep \<in> U" by (auto simp: deps_closed_def)
      moreover have "deps_closed E x U" using x cl1 by (rule deps_closed_extends)
      ultimately show "\<exists>r x'. ssrLoadModule n E dep (st @ [?url]) x = Some (r, x')"
        using sub cd by (intro Suc.IH)
    qed
    then obtain r2 s2 where
      "instantiateModule_body (ssrLoadModule n E) E ?url st s1 = Some (r2, s2)" by auto
    with fr Started show ?thesis by (cases r2) simp_all
  qed
qed

section \<open>A request on its own never waits, and leaves the pending table as it found it\<close>

lemma front_cycle:
  "unwrapId E url0 \<in> set st \<Longrightarrow>
   ssrLoadModule_front E url0 st s =
     (Cycle (namespace_value (mod_ssrModule (fst (ensureEntryFromUrl E (unwrapId E url0) s)))),
      snd (ensureEntryFromUrl E (unwrapId E url0) s))"
  by (simp add: ssrLoadModule_front_def Let_def case_prod_unfold)

lemma front_joined:
  "unwrapId E url0 \<notin> set st \<Longrightarrow> pendingModules s (unwrapId E url0) = Some p \<Longrightarrow>
   ssrLoadModule_front E url0 st s = (Joined p, snd (ensureEntryFromUrl E (unwrapId E url0) s))"
  by (simp add: ssrLoadModule_front_def Let_def case_prod_unfold)

lemma front_started:
  "unwrapId E url0 \<notin> set st \<Longrightarrow> pendingModules s (unwrapId E url0) = None \<Longrightarrow>
   ssrLoadModule_front E url0 st s =
     (Started (length (promises s)),
      (snd (ensureEntryFromUrl E (unwrapId E url0) s))
         \<lparr> promises := promises s @ [(unwrapId E url0, Unsettled)],
            pendingModules := (pendingModules s)(unwrapId E url0 \<mapsto> length (promises s)),
            cleanups := cleanups s @ [(length (promises s), unwrapId E url0)] \<rparr>)"
  by (simp add: ssrLoadModule_front_def Let_def case_prod_unfold)

lemma assign_frame [simp]:
  "pendingModules (assign_namespace url node s) = pendingModules s"
  "promises (assign_namespace url node s) = promises s"
  "cleanups (assign_namespace url node s) = cleanups s"
  by (simp_all add: assign_namespace_def)

lemma evaluate_frame:
  "pendingModules (snd (evaluateModule E url ns result s)) = pendingModules s"
  "promises (snd (evaluateModule E url ns result s)) = promises s"
  "cleanups (snd (evaluateModule E url ns result s)) = cleanups s"
  "urlToModuleMap (snd (evaluateModule E url ns result s)) = urlToModuleMap s"
  using runBody_frame[of "code result" E url ns s]
  by (auto simp: evaluateModule_def split: prod.splits option.splits)

lemma evaluate_ended: "fst (evaluateModule E url ns result s) \<noteq> Awaiting q"
  by (auto simp: evaluateModule_def split: prod.splits option.splits)

lemma loadDeps_balanced:
  assumes "balanced load" and "dom (pendingModules s) \<subseteq> set (urlStack @ [url])"
    and "loadDeps load url urlStack ds s = Some (r, s')"
  shows "(\<forall>q. r \<noteq> Awaiting q) \<and> pendingModules s' = pendingModules s"
  using assms(2,3)
proof (induction ds arbitrary: s)
  case Nil
  then show ?case by auto
next
  case (Cons d ds)
  show ?case
  proof (cases "isExternal d")
    case True
    with Cons show ?thesis by simp
  next
    case False
    with Cons.prems obtain r1 s1 where l: "load d (urlStack @ [url]) s = Some (r1, s1)"
      by (auto split: option.splits)
    from assms(1) Cons.prems(1) l have b: "\<forall>q. r1 \<noteq> Awaiting q" "pendingModules s1 = pendingModules s"
      unfolding balanced_def by blast+
    show ?thesis
    proof (cases r1)
      case (Returned v)
      with Cons.prems False l have "loadDeps load url urlStack ds s1 = Some (r, s')" by simp
      with Cons.IH[of s1] b Cons.prems(1) show ?thesis by simp
    next
      case (Threw e)
      with Cons.prems False l b show ?thesis by auto
    next
      case (Awaiting q)
      with b show ?thesis by simp
    qed
  qed
qed

lemma instantiate_balanced:
  assumes "balanced load" and "dom (pendingModules s) \<subseteq> set (urlStack @ [url])"
    and "instantiateModule_body load E url urlStack s = Some (r, s')"
  shows "(\<forall>q. r \<noteq> Awaiting q) \<and> pendingModules s' = pendingModules s"
proof -
  obtain node s1 where en: "ensureEntryFromUrl E url s = (node, s1)"
    by (cases "ensureEntryFromUrl E url s")
  note ic = instantiate_cases[OF en, of load urlStack]
  have p1: "pendingModules s1 = pendingModules s" using ensure_frame(1)[of E url s] en by simp
  show ?thesis
  proof (cases "already_instantiated node s1")
    case True
    with assms(3) ic p1 show ?thesis by auto
  next
    case False
    show ?thesis
    proof (cases "transform_result_of E url node")
      case (Inl e)
      with assms(3) ic False p1 show ?thesis by auto
    next
      case (Inr t)
      show ?thesis
      proof (cases t)
        case None
        with Inr assms(3) ic False p1 show ?thesis by auto
      next
        case (Some result)
        show ?thesis
        proof (cases "loadDeps load url urlStack (deps result) (assign_namespace url node s1)")
          case None
          with Some Inr assms(3) ic False show ?thesis by simp
        next
          case (Some a)
          obtain r3 s3 where a: "a = (r3, s3)" by (cases a)
          note ld = Some[unfolded a]
          have "dom (pendingModules (assign_namespace url node s1)) \<subseteq> set (urlStack @ [url])"
            using assms(2) p1 by simp
          from loadDeps_balanced[OF assms(1) this ld] p1
          have b3: "\<forall>q. r3 \<noteq> Awaiting q" "pendingModules s3 = pendingModules s" by simp_all
          show ?thesis
          proof (cases r3)
            case (Returned u)
            with \<open>t = Some result\<close> Inr assms(3) ic False ld
            have "(r, s') = evaluateModule E url (length (st_heap s1)) result s3" by simp
            then have "r = fst (evaluateModule E url (length (st_heap s1)) result s3)"
              "s' = snd (evaluateModule E url (length (st_heap s1)) result s3)"
              by (metis fst_conv, metis snd_conv)
            with b3 evaluate_frame(1)[of E url "length (st_heap s1)" result s3]
              evaluate_ended[of E url "length (st_heap s1)" result s3]
            show ?thesis by simp
          next
            case (Threw e)
            with \<open>t = Some result\<close> Inr assms(3) ic False ld b3 show ?thesis by auto
          next
            case (Awaiting q)
            with b3 show ?thesis by simp
          qed
        qed
      qed
    qed
  qed
qed

lemma load_started:
  assumes "ssrLoadModule_front E url0 st s = (Started p, s1)"
    and "instantiateModule_body (ssrLoadModule n E) E (unwrapId E url0) st s1 = Some (r2, s2)"
    and "\<forall>q. r2 \<noteq> Awaiting q"
  shows "ssrLoadModule (Suc n) E url0 st s =
           Some (r2, run_cleanup p (unwrapId E url0) (settle p r2 s2))"
  using assms by (cases r2) simp_all

lemma load_balanced: "balanced (ssrLoadModule n E)"
proof (induction n)
  case 0
  then show ?case by (simp add: balanced_def)
next
  case (Suc n)
  show ?case
    unfolding balanced_def
  proof (intro allI impI)
    fix url0 st s r s'
    assume d: "dom (pendingModules s) \<subseteq> set st"
      and l: "ssrLoadModule (Suc n) E url0 st s = Some (r, s')"
    show "(\<forall>q. r \<noteq> Awaiting q) \<and> pendingModules s' = pendingModules s"
    proof (cases "unwrapId E url0 \<in> set st")
      case True
      from l front_cycle[OF True, of s] show ?thesis by auto
    next
      case False
      with d have pn: "pendingModules s (unwrapId E url0) = None" by auto
      define s1 where "s1 = (snd (ensureEntryFromUrl E (unwrapId E url0) s))
                   \<lparr> promises := promises s @ [(unwrapId E url0, Unsettled)],
                      pendingModules := (pendingModules s)(unwrapId E url0 \<mapsto> length (promises s)),
                      cleanups := cleanups s @ [(length (promises s), unwrapId E url0)] \<rparr>"
      have fr: "ssrLoadModule_front E url0 st s = (Started (length (promises s)), s1)"
        unfolding s1_def using False pn by (rule front_started)
      have p1: "pendingModules s1 = (pendingModules s)(unwrapId E url0 \<mapsto> length (promises s))"
        unfolding s1_def by simp
      have d1: "dom (pendingModules s1) \<subseteq> set (st @ [unwrapId E url0])"
        using d unfolding p1 by auto
      from l fr obtain r2 s2 where
        i: "instantiateModule_body (ssrLoadModule n E) E (unwrapId E url0) st s1 = Some (r2, s2)"
        by (cases "instantiateModule_body (ssrLoadModule n E) E (unwrapId E url0) st s1") auto
      from instantiate_balanced[OF Suc d1 i]
      have b2: "\<forall>q. r2 \<noteq> Awaiting q" "pendingModules s2 = pendingModules s1" by simp_all
      have "Some (r, s') = Some (r2, run_cleanup (length (promises s)) (unwrapId E url0) (settle (length (promises s)) r2 s2))"
        unfolding l[symmetric] by (rule load_started[OF fr i b2(1)])
      then have rs: "r = r2 \<and> s' = run_cleanup (length (promises s)) (unwrapId E url0) (settle (length (promises s)) r2 s2)"
        by simp
      have "pendingModules s' = (pendingModules s1)(unwrapId E url0 := None)"
        using rs b2(2) by (simp add: run_cleanup_def)
      also have "\<dots> = pendingModules s" unfolding p1 using pn by (simp add: fun_eq_iff)
      finally show ?thesis using rs b2(1) by simp
    qed
  qed
qed

section \<open>Frozen objects are never changed\<close>

lemma heap_kept_refl [simp]: "heap_kept h h"
  by (simp add: heap_kept_def)

lemma isFrozen_kept: "heap_kept h h' \<Longrightarrow> isFrozen h a \<Longrightarrow> isFrozen h' a"
  by (auto simp: heap_kept_def isFrozen_def)

lemma heap_kept_trans:
  assumes "heap_kept h h1" and "heap_kept h1 h2"
  shows "heap_kept h h2"
proof -
  have "h2 ! a = h ! a" if fa: "isFrozen h a" for a
  proof -
    from assms(1) fa have e: "h1 ! a = h ! a" by (simp add: heap_kept_def)
    from assms(1) fa have "isFrozen h1 a" by (rule isFrozen_kept)
    with assms(2) have "h2 ! a = h1 ! a" by (simp add: heap_kept_def)
    with e show ?thesis by simp
  qed
  moreover have "is_plain (h2 ! a)" if "a < length h" "is_plain (h ! a)" for a
  proof -
    from assms(1) that have "a < length h1" "is_plain (h1 ! a)" by (simp_all add: heap_kept_def)
    with assms(2) show ?thesis by (simp add: heap_kept_def)
  qed
  moreover from assms have "length h \<le> length h2" by (simp add: heap_kept_def)
  ultimately show ?thesis by (simp add: heap_kept_def)
qed

lemma put_slot_same: "map_of ps k = Some sl \<Longrightarrow> put_slot k sl ps = ps"
  by (induction ps) (auto split: if_splits)

lemma map_of_put_slot: "map_of (put_slot k sl ps) k' = (if k' = k then Some sl else map_of ps k')"
  by (induction ps) auto

lemma frozen_slot_change: "slot_frozen cur \<Longrightarrow> slot_change_allowed cur desc \<Longrightarrow> desc = cur"
  by (cases cur; cases desc) auto

lemma frozen_slots:
  "list_all (\<lambda>(k, sl). slot_frozen sl) ps \<Longrightarrow> map_of ps k = Some sl \<Longrightarrow> slot_frozen sl"
  by (auto simp: list_all_iff dest: map_of_SomeD)

lemma defineProperty_result:
  assumes "defineProperty h b k desc = Inr h'"
  shows "b < length h \<and> (\<exists>ps ext. h ! b = Plain ps ext \<and> h' = h[b := Plain (put_slot k desc ps) ext] \<and>
           (case map_of ps k of None \<Rightarrow> ext | Some cur \<Rightarrow> slot_change_allowed cur desc))"
  using assms
  by (auto simp: defineProperty_def split: if_splits heap_obj.splits option.splits)

lemma defineProperty_kept:
  assumes "defineProperty h b k desc = Inr h'"
  shows "heap_kept h h'"
proof -
  from defineProperty_result[OF assms] obtain ps ext where
    b: "b < length h" and hb: "h ! b = Plain ps ext"
    and h': "h' = h[b := Plain (put_slot k desc ps) ext]"
    and al: "(case map_of ps k of None \<Rightarrow> ext | Some cur \<Rightarrow> slot_change_allowed cur desc)"
    by blast
  have "h' ! a = h ! a" if fa: "isFrozen h a" for a
  proof (cases "a = b")
    case False
    then show ?thesis by (simp add: h')
  next
    case True
    from fa True hb have nx: "\<not> ext" and fs: "list_all (\<lambda>(k, sl). slot_frozen sl) ps"
      by (simp_all add: isFrozen_def)
    from al nx obtain cur where c: "map_of ps k = Some cur" "slot_change_allowed cur desc"
      by (cases "map_of ps k") auto
    from frozen_slots[OF fs c(1)] c(2) have "desc = cur" by (rule frozen_slot_change)
    with c(1) have "put_slot k desc ps = ps" by (simp add: put_slot_same)
    with True hb b show ?thesis by (simp add: h')
  qed
  moreover have "is_plain (h' ! a)" if "a < length h" "is_plain (h ! a)" for a
    using that by (cases "a = b") (simp_all add: h')
  ultimately show ?thesis by (simp add: heap_kept_def h')
qed

lemma exportKeys_kept: "heap_kept h (snd (exportKeys h cur src keys))"
proof (induction keys arbitrary: h)
  case Nil
  then show ?case by simp
next
  case (Cons key keys)
  show ?case
  proof (cases "key = ''default''")
    case True
    with Cons show ?thesis by simp
  next
    case False
    show ?thesis
    proof (cases "defineProperty h cur (KStr key) (Accessor (ReadThrough src key) True True)")
      case (Inl e)
      with False show ?thesis by simp
    next
      case (Inr h1)
      from defineProperty_kept[OF Inr] Cons.IH[of h1] have "heap_kept h (snd (exportKeys h1 cur src keys))"
        by (rule heap_kept_trans)
      with False Inr show ?thesis by simp
    qed
  qed
qed

lemma exportChars_kept: "heap_kept h (snd (exportChars h cur str is))"
proof (induction "is" arbitrary: h)
  case Nil
  then show ?case by simp
next
  case (Cons i "is")
  show ?case
  proof (cases "decimal i = ''default''")
    case True
    with Cons show ?thesis by simp
  next
    case False
    show ?thesis
    proof (cases "defineProperty h cur (KStr (decimal i)) (Accessor (ReadChar str i) True True)")
      case (Inl e)
      with False show ?thesis by simp
    next
      case (Inr h1)
      from defineProperty_kept[OF Inr] Cons.IH[of h1]
      have "heap_kept h (snd (exportChars h1 cur str is))" by (rule heap_kept_trans)
      with False Inr show ?thesis by simp
    qed
  qed
qed

lemma ssrExportAll_kept: "heap_kept h (snd (ssrExportAll n h cur v))"
  by (simp add: ssrExportAll_def exportKeys_kept exportChars_kept split: js_value.splits sum.splits)

lemma strict_assign_kept: "strict_assign n h a k v = Inr h' \<Longrightarrow> heap_kept h h'"
proof (induction n arbitrary: a)
  case 0
  then show ?case by simp
next
  case (Suc n)
  show ?case
  proof (cases "a < length h")
    case False
    with Suc.prems show ?thesis by simp
  next
    case True
    show ?thesis
    proof (cases "h ! a")
      case (InteropProxy t d)
      with Suc.prems True have "strict_assign n h t k v = Inr h'" by simp
      then show ?thesis by (rule Suc.IH)
    next
      case (Plain ps ext)
      with Suc.prems True obtain sl where h': "h' = h[a := Plain (put_slot k sl ps) ext]"
        and ok: "(map_of ps k = None \<and> ext) \<or> (\<exists>v0 e c. map_of ps k = Some (Data v0 True e c))"
        by (auto split: option.splits slot.splits if_splits)
      have nf: "\<not> isFrozen h a"
      proof
        assume "isFrozen h a"
        with Plain have nx: "\<not> ext" and fs: "list_all (\<lambda>(k, sl). slot_frozen sl) ps"
          by (simp_all add: isFrozen_def)
        from ok nx obtain v0 e c where "map_of ps k = Some (Data v0 True e c)" by auto
        from frozen_slots[OF fs this] show False by simp
      qed
      have "h' ! b = h ! b" if "isFrozen h b" for b
        using that nf by (cases "b = a") (simp_all add: h')
      moreover have "is_plain (h' ! b)" if "b < length h" "is_plain (h ! b)" for b
        using that by (cases "b = a") (simp_all add: h')
      ultimately show ?thesis by (simp add: heap_kept_def h')
    qed
  qed
qed

lemma catch_block_kept: "heap_kept h (snd (catch_block E h e))"
  by (auto simp: catch_block_def split: js_error.splits js_value.splits sum.splits
        intro: strict_assign_kept)

lemma assignProp_frozen:
  assumes "isFrozen h a"
  shows "assignProp h a k v = h"
proof -
  from assms obtain ps where a: "a < length h" and p: "h ! a = Plain ps False"
    and fs: "list_all (\<lambda>(k, sl). slot_frozen sl) ps"
    by (cases "h ! a") (auto simp: isFrozen_def)
  show ?thesis
  proof (cases "map_of ps k")
    case None
    with a p show ?thesis by (simp add: assignProp_def)
  next
    case (Some sl)
    from frozen_slots[OF fs Some] have "slot_frozen sl" .
    with a p Some show ?thesis by (cases sl) (simp_all add: assignProp_def)
  qed
qed

lemma assignProp_other: "a \<noteq> b \<Longrightarrow> assignProp h b k v ! a = h ! a"
  by (simp add: assignProp_def split: heap_obj.splits option.splits slot.splits)

lemma assignProp_plain: "a < length h \<Longrightarrow> is_plain (h ! a) \<Longrightarrow> is_plain (assignProp h b k v ! a)"
  by (cases "a = b")
     (auto simp: assignProp_def split: heap_obj.splits option.splits slot.splits)

lemma assignProp_kept: "heap_kept h (assignProp h b k v)"
proof -
  have "assignProp h b k v ! a = h ! a" if fa: "isFrozen h a" for a
    using fa by (cases "a = b") (simp_all add: assignProp_frozen assignProp_other)
  then show ?thesis by (simp add: heap_kept_def assignProp_plain)
qed

lemma append_kept: "heap_kept h (h @ xs)"
  by (simp add: heap_kept_def isFrozen_def nth_append)

lemma nodeRequire_kept: "heap_kept h (fst (snd (nodeRequire n E depId importer root h cache)))"
  by (simp add: nodeRequire_def append_kept split: prod.splits sum.splits js_value.splits)

lemma ssrImport_kept: "heap_kept (st_heap s) (st_heap (snd (ssrImport E url dep s)))"
  by (simp add: ssrImport_def case_prod_unfold nodeRequire_kept)

lemma freeze_frozen_obj: "obj_frozen ob \<Longrightarrow> freeze_obj ob = ob"
proof (cases ob)
  case (Plain ps ext)
  assume "obj_frozen ob"
  with Plain have nx: "\<not> ext" and fs: "list_all (\<lambda>(k, sl). slot_frozen sl) ps" by simp_all
  have "map (\<lambda>(k, sl). (k, freeze_slot sl)) ps = ps"
    using fs
  proof (induction ps)
    case Nil
    then show ?case by simp
  next
    case (Cons p ps)
    obtain k sl where p: "p = (k, sl)" by (cases p)
    from Cons.prems p have "slot_frozen sl" by simp
    then have "freeze_slot sl = sl" by (cases sl) auto
    with Cons p show ?case by simp
  qed
  with Plain nx show ?thesis by simp
next
  case (InteropProxy t d)
  then show ?thesis by simp
qed

lemma freeze_kept: "heap_kept h (freeze h b)"
proof -
  have "freeze h b ! a = h ! a" if fa: "isFrozen h a" for a
  proof (cases "a = b")
    case False
    then show ?thesis by (simp add: freeze_def)
  next
    case True
    with fa show ?thesis by (simp add: freeze_def isFrozen_def freeze_frozen_obj)
  qed
  moreover have "is_plain (freeze h b ! a)" if "a < length h" "is_plain (h ! a)" for a
    using that by (cases "a = b"; cases "h ! a") (simp_all add: freeze_def)
  ultimately show ?thesis by (simp add: heap_kept_def)
qed

lemma freeze_makes_frozen:
  assumes "a < length h" and "is_plain (h ! a)"
  shows "isFrozen (freeze h a) a"
proof -
  from assms(2) obtain ps ext where p: "h ! a = Plain ps ext" by (cases "h ! a") auto
  have "list_all (\<lambda>(k, sl). slot_frozen sl) (map (\<lambda>(k, sl). (k, freeze_slot sl)) ps)"
  proof (induction ps)
    case Nil
    then show ?case by simp
  next
    case (Cons q ps)
    obtain k sl where q: "q = (k, sl)" by (cases q)
    have "slot_frozen (freeze_slot sl)" by (cases sl) auto
    with Cons q show ?case by simp
  qed
  with assms(1) p show ?thesis by (simp add: isFrozen_def freeze_def)
qed

lemma runBody_kept: "heap_kept (st_heap s) (st_heap (snd (runBody b E url ns s)))"
proof (induction b arbitrary: s)
  case Done
  then show ?case by simp
next
  case (Throw e)
  then show ?case by simp
next
  case (Import dep k)
  obtain r s' where i: "ssrImport E url dep s = (r, s')" by (cases "ssrImport E url dep s")
  have "heap_kept (st_heap s) (st_heap s')" using ssrImport_kept[of s E url dep] i by simp
  moreover have "heap_kept (st_heap s') (st_heap (snd (runBody (k r) E url ns s')))"
    by (rule Import.IH) (rule rangeI)
  ultimately show ?case using i by (auto intro: heap_kept_trans)
next
  case (ExportAll v k)
  obtain err h' where x: "ssrExportAll (callDepth E) (st_heap s) ns v = (err, h')"
    by (cases "ssrExportAll (callDepth E) (st_heap s) ns v")
  have "heap_kept (st_heap s) h'" using ssrExportAll_kept[of "st_heap s" "callDepth E" ns v] x by simp
  moreover have "heap_kept (st_heap (s\<lparr>st_heap := h'\<rparr>))
      (st_heap (snd (runBody (k err) E url ns (s\<lparr>st_heap := h'\<rparr>))))"
    by (rule ExportAll.IH) (rule rangeI)
  ultimately show ?case using x by (auto intro: heap_kept_trans)
next
  case (Assign key v b)
  have "heap_kept (st_heap s) (assignProp (st_heap s) ns (KStr key) v)" by (rule assignProp_kept)
  moreover have "heap_kept (st_heap (s\<lparr>st_heap := assignProp (st_heap s) ns (KStr key) v\<rparr>))
      (st_heap (snd (runBody b E url ns (s\<lparr>st_heap := assignProp (st_heap s) ns (KStr key) v\<rparr>))))"
    by (rule Assign.IH)
  ultimately show ?case by (auto intro: heap_kept_trans)
qed

lemma loadDeps_rel:
  assumes rf: "\<And>x. R x x"
    and tr: "\<And>a b c. R a b \<Longrightarrow> R b c \<Longrightarrow> R a c"
    and ld: "\<And>dep x r x'. load dep (stk @ [url]) x = Some (r, x') \<Longrightarrow> R x x'"
  shows "loadDeps load url stk ds s = Some (r, s') \<Longrightarrow> R s s'"
proof (induction ds arbitrary: s)
  case Nil
  then show ?case by (simp add: rf)
next
  case (Cons d ds)
  show ?case
  proof (cases "isExternal d")
    case True
    with Cons show ?thesis by simp
  next
    case False
    with Cons.prems obtain r1 s1 where l: "load d (stk @ [url]) s = Some (r1, s1)"
      by (auto split: option.splits)
    note e1 = ld[OF l]
    show ?thesis
    proof (cases r1)
      case (Returned v)
      with Cons.prems False l have "loadDeps load url stk ds s1 = Some (r, s')" by simp
      from tr[OF e1 Cons.IH[OF this]] show ?thesis .
    next
      case (Threw e)
      with Cons.prems False l e1 show ?thesis by simp
    next
      case (Awaiting q)
      with Cons.prems False l e1 show ?thesis by simp
    qed
  qed
qed

lemma load_rel:
  assumes rf: "\<And>x. R x x"
    and tr: "\<And>a b c. R a b \<Longrightarrow> R b c \<Longrightarrow> R a c"
    and fr: "\<And>u st x. R x (snd (ssrLoadModule_front E u st x))"
    and en: "\<And>u x. R x (snd (ensureEntryFromUrl E u x))"
    and asg: "\<And>u x node x1. ensureEntryFromUrl E u x = (node, x1) \<Longrightarrow>
                \<not> already_instantiated node x1 \<Longrightarrow> R x1 (assign_namespace u node x1)"
    and ev: "\<And>u ns result x. R x (snd (evaluateModule E u ns result x))"
    and se: "\<And>p r x. R x (settle p r x)"
    and cl: "\<And>p u x. R x (run_cleanup p u x)"
  shows "ssrLoadModule n E url0 st s = Some (r, s') \<Longrightarrow> R s s'"
proof (induction n arbitrary: url0 st s r s')
  case 0
  then show ?case by simp
next
  case (Suc n)
  have deps: "R x x'" if ld: "loadDeps (ssrLoadModule n E) url stk ds x = Some (r', x')"
    for url stk ds x r' x'
    by (rule loadDeps_rel[where R = R and load = "ssrLoadModule n E", OF _ _ _ ld])
       (rule rf, rule tr, assumption, assumption, rule Suc.IH)
  have inst: "R x x'" if i: "instantiateModule_body (ssrLoadModule n E) E url stk x = Some (r', x')"
    for url stk x r' x'
  proof -
    obtain node x1 where e: "ensureEntryFromUrl E url x = (node, x1)"
      by (cases "ensureEntryFromUrl E url x")
    note ic = instantiate_cases[OF e, of "ssrLoadModule n E" stk]
    have e1: "R x x1" using en[of x url] e by simp
    show ?thesis
    proof (cases "already_instantiated node x1")
      case True
      with i ic e1 show ?thesis by simp
    next
      case False
      have e12: "R x (assign_namespace url node x1)" using e1 asg[OF e False] by (rule tr)
      show ?thesis
      proof (cases "transform_result_of E url node")
        case (Inl err)
        with i ic False e12 show ?thesis by simp
      next
        case (Inr t)
        show ?thesis
        proof (cases t)
          case None
          with Inr i ic False e12 show ?thesis by simp
        next
          case (Some result)
          show ?thesis
          proof (cases "loadDeps (ssrLoadModule n E) url stk (deps result) (assign_namespace url node x1)")
            case None
            with Some Inr i ic False show ?thesis by simp
          next
            case (Some a)
            obtain r3 x3 where a: "a = (r3, x3)" by (cases a)
            note ld = Some[unfolded a]
            note e3 = tr[OF e12 deps[OF ld]]
            show ?thesis
            proof (cases r3)
              case (Returned u)
              with \<open>t = Some result\<close> Inr i ic False ld
              have "x' = snd (evaluateModule E url (length (st_heap x1)) result x3)"
                by (simp add: snd_def split: prod.splits)
              with e3 ev[of x3 url "length (st_heap x1)" result]
              show ?thesis by (auto intro: tr)
            next
              case (Threw err)
              with \<open>t = Some result\<close> Inr i ic False ld e3 show ?thesis by simp
            next
              case (Awaiting q)
              with \<open>t = Some result\<close> Inr i ic False ld e3 show ?thesis by simp
            qed
          qed
        qed
      qed
    qed
  qed
  obtain f s1 where f: "ssrLoadModule_front E url0 st s = (f, s1)"
    by (cases "ssrLoadModule_front E url0 st s")
  have e1: "R s s1" using fr[of s url0 st] f by simp
  show ?case
  proof (cases f)
    case (Cycle v)
    with Suc.prems f e1 show ?thesis by simp
  next
    case (Joined p)
    with Suc.prems f e1 show ?thesis by simp
  next
    case (Started p)
    with Suc.prems f obtain r2 s2 where
      i: "instantiateModule_body (ssrLoadModule n E) E (unwrapId E url0) st s1 = Some (r2, s2)"
      by (auto split: option.splits)
    note e2 = tr[OF e1 inst[OF i]]
    show ?thesis
    proof (cases r2)
      case (Awaiting q)
      with Suc.prems f Started i e2 show ?thesis by auto
    next
      case (Returned v)
      with Suc.prems f Started i
      have "s' = run_cleanup p (unwrapId E url0) (settle p r2 s2)" by auto
      with tr[OF e2 tr[OF se[of s2 p r2] cl[of "settle p r2 s2" p "unwrapId E url0"]]]
      show ?thesis by simp
    next
      case (Threw e)
      with Suc.prems f Started i
      have "s' = run_cleanup p (unwrapId E url0) (settle p r2 s2)" by auto
      with tr[OF e2 tr[OF se[of s2 p r2] cl[of "settle p r2 s2" p "unwrapId E url0"]]]
      show ?thesis by simp
    qed
  qed
qed

lemma keeps_refl [simp]: "keeps s s"
  by (simp add: keeps_def)

lemma keeps_trans: "keeps s s1 \<Longrightarrow> keeps s1 s2 \<Longrightarrow> keeps s s2"
  by (auto simp: keeps_def intro: heap_kept_trans)

lemma keeps_same:
  assumes "urlToModuleMap s' = urlToModuleMap s" and "heap_kept (st_heap s) (st_heap s')"
  shows "keeps s s'"
  using assms by (auto simp: keeps_def frozen_at_def split: option.splits dest: isFrozen_kept)

lemma keeps_ensure: "keeps s (snd (ensureEntryFromUrl E u s))"
  by (auto simp: keeps_def frozen_at_def ensureEntryFromUrl_def Let_def split: option.splits)

lemma frozen_at_upd [simp]:
  "frozen_at (s\<lparr>promises := a\<rparr>) = frozen_at s"
  "frozen_at (s\<lparr>pendingModules := b\<rparr>) = frozen_at s"
  "frozen_at (s\<lparr>cleanups := c\<rparr>) = frozen_at s"
  "frozen_at (s\<lparr>resolveCache := e\<rparr>) = frozen_at s"
  by (simp_all add: frozen_at_def fun_eq_iff split: option.splits)

lemma keeps_front: "keeps s (snd (ssrLoadModule_front E url0 st s))"
proof -
  obtain r s' where f: "ssrLoadModule_front E url0 st s = (r, s')"
    by (cases "ssrLoadModule_front E url0 st s")
  have k: "keeps s (snd (ensureEntryFromUrl E (unwrapId E url0) s))" by (rule keeps_ensure)
  from front_result[OF f] have "keeps s s'"
    by (elim disjE conjE exE) (use k in \<open>simp_all add: keeps_def\<close>)
  with f show ?thesis by simp
qed

lemma keeps_settle: "keeps s (settle p r s)"
  by (rule keeps_same) simp_all

lemma keeps_cleanup: "keeps s (run_cleanup p u s)"
  by (rule keeps_same) (simp_all add: run_cleanup_def)

lemma keeps_evaluate: "keeps s (snd (evaluateModule E url ns result s))"
proof (rule keeps_same)
  show "urlToModuleMap (snd (evaluateModule E url ns result s)) = urlToModuleMap s"
    using runBody_frame[of "code result" E url ns s]
    by (auto simp: evaluateModule_def split: prod.splits option.splits)
  obtain err s1 where rb: "runBody (code result) E url ns s = (err, s1)"
    by (cases "runBody (code result) E url ns s")
  from runBody_kept[of s "code result" E url ns] rb have k: "heap_kept (st_heap s) (st_heap s1)" by simp
  from k freeze_kept[of "st_heap s1" ns] have "heap_kept (st_heap s) (freeze (st_heap s1) ns)"
    by (rule heap_kept_trans)
  moreover have "heap_kept (st_heap s) (snd (catch_block E (st_heap s1) e))" for e
    using k catch_block_kept by (rule heap_kept_trans)
  ultimately show "heap_kept (st_heap s) (st_heap (snd (evaluateModule E url ns result s)))"
    using rb by (cases err) (simp_all add: evaluateModule_def)
qed

lemma keeps_assign:
  assumes "ensureEntryFromUrl E url s = (node, s1)" and "\<not> already_instantiated node s1"
  shows "keeps s1 (assign_namespace url node s1)"
proof -
  from ensure_node[of E url s] assms(1) have n: "urlToModuleMap s1 url = Some node" by simp
  have "frozen_at (assign_namespace url node s1) u a" if fa: "frozen_at s1 u a" for u a
  proof (cases "u = url")
    case True
    with fa n assms(2) show ?thesis by (simp add: frozen_at_def already_instantiated_def)
  next
    case False
    with fa show ?thesis
      by (auto simp: frozen_at_def assign_namespace_def split: option.splits
            intro: isFrozen_kept[OF append_kept])
  qed
  then show ?thesis by (simp add: keeps_def assign_namespace_def append_kept)
qed

lemma load_keeps: "ssrLoadModule n E url0 st s = Some (r, s') \<Longrightarrow> keeps s s'"
  by (rule load_rel[where R = keeps and E = E])
     (auto intro: keeps_trans keeps_front keeps_ensure keeps_assign keeps_evaluate keeps_settle keeps_cleanup)

lemma ensure_keeps_node:
  "urlToModuleMap s v = Some nd \<Longrightarrow> urlToModuleMap (snd (ensureEntryFromUrl E u s)) v = Some nd"
  by (cases "v = u") (simp_all add: ensure_idem ensure_other)

lemma front_graph:
  "urlToModuleMap (snd (ssrLoadModule_front E url0 st s)) =
   urlToModuleMap (snd (ensureEntryFromUrl E (unwrapId E url0) s))"
proof -
  obtain r s' where f: "ssrLoadModule_front E url0 st s = (r, s')"
    by (cases "ssrLoadModule_front E url0 st s")
  from front_result[OF f] have "urlToModuleMap s' = urlToModuleMap (snd (ensureEntryFromUrl E (unwrapId E url0) s))"
    by (elim disjE conjE exE) simp_all
  with f show ?thesis by simp
qed

lemma settle_cleanup_graph [simp]:
  "urlToModuleMap (run_cleanup p u (settle p r s)) = urlToModuleMap s"
  by (simp add: run_cleanup_def)

lemma instantiate_stack_node:
  assumes ld: "\<And>dep x r x'. load dep (stk @ [url]) x = Some (r, x') \<Longrightarrow>
                 urlToModuleMap x v = Some nd \<longrightarrow> urlToModuleMap x' v = Some nd"
    and i: "instantiateModule_body load E url stk s = Some (r, s')"
    and v: "urlToModuleMap s v = Some nd" and ne: "v \<noteq> url"
  shows "urlToModuleMap s' v = Some nd"
proof -
  obtain node s1 where e: "ensureEntryFromUrl E url s = (node, s1)"
    by (cases "ensureEntryFromUrl E url s")
  note ic = instantiate_cases[OF e, of load stk]
  have v1: "urlToModuleMap s1 v = Some nd" using ensure_keeps_node[OF v, of E url] e by simp
  have v2: "urlToModuleMap (assign_namespace url node s1) v = Some nd"
    using v1 ne by (simp add: assign_namespace_def)
  show ?thesis
  proof (cases "already_instantiated node s1")
    case True
    with i ic v1 show ?thesis by simp
  next
    case False
    show ?thesis
    proof (cases "transform_result_of E url node")
      case (Inl err)
      with i ic False v2 show ?thesis by simp
    next
      case (Inr t)
      show ?thesis
      proof (cases t)
        case None
        with Inr i ic False v2 show ?thesis by simp
      next
        case (Some result)
        show ?thesis
        proof (cases "loadDeps load url stk (deps result) (assign_namespace url node s1)")
          case None
          with Some Inr i ic False show ?thesis by simp
        next
          case (Some a)
          obtain r3 s3 where a: "a = (r3, s3)" by (cases a)
          note l = Some[unfolded a]
          have "urlToModuleMap (assign_namespace url node s1) v = Some nd \<longrightarrow> urlToModuleMap s3 v = Some nd"
            by (rule loadDeps_rel[where R = "\<lambda>x x'. urlToModuleMap x v = Some nd \<longrightarrow> urlToModuleMap x' v = Some nd"
                  and load = load, OF _ _ ld l]) simp_all
          with v2 have v3: "urlToModuleMap s3 v = Some nd" by simp
          show ?thesis
          proof (cases r3)
            case (Returned u)
            with \<open>t = Some result\<close> Inr i ic False l
            have "s' = snd (evaluateModule E url (length (st_heap s1)) result s3)"
              by (simp add: snd_def split: prod.splits)
            with v3 show ?thesis by (simp add: evaluate_frame)
          next
            case (Threw err)
            with \<open>t = Some result\<close> Inr i ic False l v3 show ?thesis by simp
          next
            case (Awaiting q)
            with \<open>t = Some result\<close> Inr i ic False l v3 show ?thesis by simp
          qed
        qed
      qed
    qed
  qed
qed

lemma load_stack_node:
  "ssrLoadModule n E url0 st s = Some (r, s') \<Longrightarrow> v \<in> set st \<Longrightarrow>
   urlToModuleMap s v = Some nd \<longrightarrow> urlToModuleMap s' v = Some nd"
proof (induction n arbitrary: url0 st s r s')
  case 0
  then show ?case by simp
next
  case (Suc n)
  show ?case
  proof
    assume v: "urlToModuleMap s v = Some nd"
    obtain f s1 where f: "ssrLoadModule_front E url0 st s = (f, s1)"
      by (cases "ssrLoadModule_front E url0 st s")
    have v1: "urlToModuleMap s1 v = Some nd"
      using front_graph[of E url0 st s] f ensure_keeps_node[OF v, of E "unwrapId E url0"] by simp
    show "urlToModuleMap s' v = Some nd"
    proof (cases f)
      case (Cycle u)
      with Suc.prems f v1 show ?thesis by simp
    next
      case (Joined p)
      with Suc.prems f v1 show ?thesis by simp
    next
      case (Started p)
      with front_result[OF f] have ne: "v \<noteq> unwrapId E url0" using Suc.prems(2) by auto
      from Started Suc.prems f obtain r2 s2 where
        i: "instantiateModule_body (ssrLoadModule n E) E (unwrapId E url0) st s1 = Some (r2, s2)"
        by (auto split: option.splits)
      have v2: "urlToModuleMap s2 v = Some nd"
      proof (rule instantiate_stack_node[where load = "ssrLoadModule n E", OF _ i v1 ne])
        fix dep x r x'
        assume "ssrLoadModule n E dep (st @ [unwrapId E url0]) x = Some (r, x')"
        then show "urlToModuleMap x v = Some nd \<longrightarrow> urlToModuleMap x' v = Some nd"
          by (rule Suc.IH) (use Suc.prems(2) in simp)
      qed
      show ?thesis
      proof (cases r2)
        case (Awaiting q)
        with Suc.prems f Started i v2 show ?thesis by auto
      next
        case (Returned u)
        with Suc.prems f Started i
        have "s' = run_cleanup p (unwrapId E url0) (settle p r2 s2)" by auto
        with v2 show ?thesis by simp
      next
        case (Threw e)
        with Suc.prems f Started i
        have "s' = run_cleanup p (unwrapId E url0) (settle p r2 s2)" by auto
        with v2 show ?thesis by simp
      qed
    qed
  qed
qed

lemma keeps_heap: "keeps s s' \<Longrightarrow> heap_kept (st_heap s) (st_heap s')"
  by (simp add: keeps_def)

lemma heap_kept_plain:
  "heap_kept h h' \<Longrightarrow> a < length h \<Longrightarrow> is_plain (h ! a) \<Longrightarrow> a < length h' \<and> is_plain (h' ! a)"
  by (auto simp: heap_kept_def)

lemma instantiate_returns_frozen:
  assumes i: "instantiateModule_body (ssrLoadModule n E) E url stk s = Some (Returned v, s')"
  shows "\<exists>a. v = Ref a \<and> frozen_at s' url a"
proof -
  obtain node s1 where e: "ensureEntryFromUrl E url s = (node, s1)"
    by (cases "ensureEntryFromUrl E url s")
  note ic = instantiate_cases[OF e, of "ssrLoadModule n E" stk]
  from ensure_node[of E url s] e have n1: "urlToModuleMap s1 url = Some node" by simp
  let ?ns = "length (st_heap s1)"
  let ?s2 = "assign_namespace url node s1"
  show ?thesis
  proof (cases "already_instantiated node s1")
    case True
    with i ic n1 show ?thesis
      by (auto simp: already_instantiated_def frozen_at_def namespace_value_def split: option.splits)
  next
    case False
    show ?thesis
    proof (cases "transform_result_of E url node")
      case (Inl err)
      with i ic False show ?thesis by simp
    next
      case (Inr t)
      show ?thesis
      proof (cases t)
        case None
        with Inr i ic False show ?thesis by simp
      next
        case (Some result)
        show ?thesis
        proof (cases "loadDeps (ssrLoadModule n E) url stk (deps result) ?s2")
          case None
          with Some Inr i ic False show ?thesis by simp
        next
          case (Some a)
          obtain r3 s3 where a: "a = (r3, s3)" by (cases a)
          note l = Some[unfolded a]
          have n2: "urlToModuleMap ?s2 url = Some (node\<lparr>mod_ssrModule := Some ?ns\<rparr>)"
            by (simp add: assign_namespace_def)
          have p2: "?ns < length (st_heap ?s2)" "is_plain (st_heap ?s2 ! ?ns)"
            by (simp_all add: assign_namespace_def newNamespace_def)
          have "urlToModuleMap ?s2 url = Some (node\<lparr>mod_ssrModule := Some ?ns\<rparr>)
                 \<longrightarrow> urlToModuleMap s3 url = Some (node\<lparr>mod_ssrModule := Some ?ns\<rparr>)"
          proof (rule loadDeps_rel[where R = "\<lambda>x x'. urlToModuleMap x url = Some (node\<lparr>mod_ssrModule := Some ?ns\<rparr>)
                 \<longrightarrow> urlToModuleMap x' url = Some (node\<lparr>mod_ssrModule := Some ?ns\<rparr>)"
                  and load = "ssrLoadModule n E", OF _ _ _ l])
            fix dep x r x'
            assume "ssrLoadModule n E dep (stk @ [url]) x = Some (r, x')"
            then show "urlToModuleMap x url = Some (node\<lparr>mod_ssrModule := Some ?ns\<rparr>)
                 \<longrightarrow> urlToModuleMap x' url = Some (node\<lparr>mod_ssrModule := Some ?ns\<rparr>)"
              by (rule load_stack_node) simp
          qed simp_all
          with n2 have n3: "urlToModuleMap s3 url = Some (node\<lparr>mod_ssrModule := Some ?ns\<rparr>)" by simp
          have "keeps ?s2 s3"
            by (rule loadDeps_rel[where R = keeps and load = "ssrLoadModule n E", OF _ _ _ l])
               (auto intro: keeps_trans load_keeps)
          from heap_kept_plain[OF keeps_heap[OF this] p2]
          have p3: "?ns < length (st_heap s3)" "is_plain (st_heap s3 ! ?ns)" by simp_all
          show ?thesis
          proof (cases r3)
            case (Returned u)
            with \<open>t = Some result\<close> Inr i ic False l
            have ev: "evaluateModule E url ?ns result s3 = (Returned v, s')"
              by simp
            obtain err s4 where rb: "runBody (code result) E url ?ns s3 = (err, s4)"
              by (cases "runBody (code result) E url ?ns s3")
            from ev rb have v: "v = Ref ?ns" and s': "s' = s4\<lparr>st_heap := freeze (st_heap s4) ?ns\<rparr>"
              by (auto simp: evaluateModule_def split: option.splits)
            from runBody_kept[of s3 "code result" E url ?ns] rb
            have "heap_kept (st_heap s3) (st_heap s4)" by simp
            from heap_kept_plain[OF this p3]
            have "isFrozen (freeze (st_heap s4) ?ns) ?ns" by (intro freeze_makes_frozen) simp_all
            moreover from runBody_frame[of "code result" E url ?ns s3] rb n3
            have "urlToModuleMap s4 url = Some (node\<lparr>mod_ssrModule := Some ?ns\<rparr>)" by simp
            ultimately show ?thesis using v s' by (simp add: frozen_at_def)
          next
            case (Threw err)
            with \<open>t = Some result\<close> Inr i ic False l show ?thesis by simp
          next
            case (Awaiting q)
            with \<open>t = Some result\<close> Inr i ic False l show ?thesis by simp
          qed
        qed
      qed
    qed
  qed
qed

lemma frozen_at_settle_cleanup [simp]:
  "frozen_at (run_cleanup p u (settle p r s)) = frozen_at s"
  by (simp add: frozen_at_def fun_eq_iff run_cleanup_def split: option.splits)

lemma load_returns_frozen:
  assumes l: "ssrLoadModule n E url0 st s = Some (Returned v, s')"
    and ns: "unwrapId E url0 \<notin> set st" and np: "pendingModules s (unwrapId E url0) = None"
  shows "\<exists>a. v = Ref a \<and> frozen_at s' (unwrapId E url0) a"
proof (cases n)
  case 0
  with l show ?thesis by simp
next
  case (Suc m)
  note f = front_started[OF ns np]
  from l Suc f obtain r2 s2 where
    i: "instantiateModule_body (ssrLoadModule m E) E (unwrapId E url0) st
          (snd (ssrLoadModule_front E url0 st s)) = Some (r2, s2)"
    by (auto split: option.splits)
  show ?thesis
  proof (cases r2)
    case (Awaiting q)
    with l Suc f i show ?thesis by simp
  next
    case (Threw e)
    with l Suc f i show ?thesis by simp
  next
    case (Returned u)
    with l Suc f i have "v = u" "s' = run_cleanup (length (promises s)) (unwrapId E url0)
        (settle (length (promises s)) r2 s2)" by auto
    with instantiate_returns_frozen[OF i[unfolded Returned]] show ?thesis by simp
  qed
qed

lemma frozen_at_fun: "frozen_at s u a \<Longrightarrow> frozen_at s u b \<Longrightarrow> a = b"
  by (auto simp: frozen_at_def split: option.splits)

section \<open>What a completed export-all defines\<close>

text \<open>
  When \<^verbatim>\<open>ssrExportAll\<close> ends without an error, every key the loop visited, \<^verbatim>\<open>default\<close>
  apart, is an accessor of the namespace that reads the source; a read of such a key is a
  read of the source's key in the heap of that moment, one call deeper.
\<close>

lemma defineProperty_slot:
  assumes "defineProperty h a k desc = Inr h'"
  shows "own_slot h' a k' = (if k' = k then Some desc else own_slot h a k')"
proof -
  from defineProperty_result[OF assms] obtain ps ext where
    "a < length h" "h ! a = Plain ps ext" "h' = h[a := Plain (put_slot k desc ps) ext]"
    by blast
  then show ?thesis by (simp add: own_slot_def map_of_put_slot)
qed

lemma exportKeys_slot:
  assumes "exportKeys h cur src keys = (None, h')"
    and "(key \<in> set keys \<and> key \<noteq> ''default'') \<or>
         own_slot h cur (KStr key) = Some (Accessor (ReadThrough src key) True True)"
  shows "own_slot h' cur (KStr key) = Some (Accessor (ReadThrough src key) True True)"
  using assms
proof (induction keys arbitrary: h)
  case Nil
  then show ?case by simp
next
  case (Cons k ks)
  show ?case
  proof (cases "k = ''default''")
    case True
    with Cons.prems have "exportKeys h cur src ks = (None, h')" by simp
    moreover from True Cons.prems(2)
    have "(key \<in> set ks \<and> key \<noteq> ''default'') \<or>
         own_slot h cur (KStr key) = Some (Accessor (ReadThrough src key) True True)" by auto
    ultimately show ?thesis by (rule Cons.IH)
  next
    case False
    with Cons.prems(1) obtain h1 where
      d: "defineProperty h cur (KStr k) (Accessor (ReadThrough src k) True True) = Inr h1"
      and r: "exportKeys h1 cur src ks = (None, h')"
      by (auto split: sum.splits)
    from defineProperty_slot[OF d, of "KStr key"] Cons.prems(2)
    have "(key \<in> set ks \<and> key \<noteq> ''default'') \<or>
         own_slot h1 cur (KStr key) = Some (Accessor (ReadThrough src key) True True)" by auto
    with r show ?thesis by (rule Cons.IH)
  qed
qed

lemma ssrExportAll_defines:
  assumes "ssrExportAll n h cur (Ref src) = (None, h')" and "forInKeys n h src = Inr keys"
    and "key \<in> set keys" and "key \<noteq> ''default''"
  shows "own_slot h' cur (KStr key) = Some (Accessor (ReadThrough src key) True True)"
proof -
  from assms(1,2) have "exportKeys h cur src keys = (None, h')" by (simp add: ssrExportAll_def)
  then show ?thesis by (rule exportKeys_slot) (use assms(3,4) in simp)
qed

lemma reexport_reads_source:
  assumes "own_slot h cur (KStr key) = Some (Accessor (ReadThrough src key) e c)"
  shows "js_get (Suc m) h cur (KStr key) = js_get m h src (KStr key)"
  using assms by (auto simp: own_slot_def split: if_splits heap_obj.splits)

lemma reexport_follows_assignment:
  assumes "own_slot h cur (KStr key) = Some (Accessor (ReadThrough src key) e c)" and "src \<noteq> cur"
  shows "own_slot (assignProp h src k v) cur (KStr key) = Some (Accessor (ReadThrough src key) e c)"
  using assms by (simp add: own_slot_def assignProp_other split: if_splits)

lemma deps_loaded_live:
  assumes "stack_live s (urlStack @ [url])"
    and "loadDeps (ssrLoadModule m E) url urlStack ds s = Some (r, s')"
  shows "stack_live s' (urlStack @ [url])"
proof -
  have "extends s s'"
    by (rule loadDeps_extends[where load = "ssrLoadModule m E", OF _ assms(2)]) (rule load_extends)
  then show ?thesis using assms(1) by (rule stack_live_extends)
qed

lemma load_returns_or_throws:
  assumes "finite U" and "deps_closed E s U" and "unwrapId E url0 \<in> U"
    and "pendingModules s = Map.empty" and "card U < n"
  shows "\<exists>s'. (\<exists>v. ssrLoadModule n E url0 [] s = Some (Returned v, s')) \<or>
              (\<exists>e. ssrLoadModule n E url0 [] s = Some (Threw e, s'))"
proof -
  from load_terminates[OF assms(1,2,3), of "[]" n] assms(5)
  obtain r s' where l: "ssrLoadModule n E url0 [] s = Some (r, s')" by auto
  from load_balanced[of n E] assms(4) l have "\<forall>q. r \<noteq> Awaiting q"
    unfolding balanced_def by force
  with l show ?thesis by (cases r) auto
qed

text \<open>
  What holds of a cycle met inside one chain of nested loads. A load whose identifier is on
  the call stack returns at once, with the namespace the node holds at that moment; nothing
  but the node itself is created. If every url of the call stack holds a namespace the value
  is an object, not \<^verbatim>\<open>null\<close>, and the state is unchanged. Every nested load is called with such
  a stack: checking the assertion of line 35 at every nested call changes no result, the
  state after the dependency loop still has a namespace for every url of the stack extended
  by the module itself, and in such a state the static import of a url on the stack yields
  its namespace object. On a finite module graph, cyclic or not, one request started with no
  load pending returns or throws.
\<close>

lemma nested_cycle_safe:
  assumes "unwrapId E url0 \<in> set urlStack"
  shows "ssrLoadModule (Suc n) E url0 urlStack s =
           Some (Returned (namespace_value (mod_ssrModule (fst (ensureEntryFromUrl E (unwrapId E url0) s)))),
                 snd (ensureEntryFromUrl E (unwrapId E url0) s)) \<and>
         (stack_live s urlStack \<longrightarrow>
            (\<exists>a. ssrLoadModule (Suc n) E url0 urlStack s = Some (Returned (Ref a), s))) \<and>
         (\<forall>m u st x. stack_live x st \<longrightarrow>
            ssrLoadModule_checked m E u st x = ssrLoadModule m E u st x) \<and>
         (\<forall>m url st ds x r x'. stack_live x (st @ [url]) \<and>
              loadDeps (ssrLoadModule m E) url st ds x = Some (r, x') \<longrightarrow>
            stack_live x' (st @ [url])) \<and>
         (\<forall>url dep st x. \<not> isExternal dep \<and> unwrapId E dep \<in> set st \<and> stack_live x st \<longrightarrow>
            (\<exists>a. ssrImport E url dep x = (Inr (Ref a), x))) \<and>
         (\<forall>U m u x. finite U \<and> deps_closed E x U \<and> unwrapId E u \<in> U \<and>
              pendingModules x = Map.empty \<and> card U < m \<longrightarrow>
            (\<exists>x'. (\<exists>v. ssrLoadModule m E u [] x = Some (Returned v, x')) \<or>
                   (\<exists>e. ssrLoadModule m E u [] x = Some (Threw e, x'))))"
proof (intro conjI allI impI)
  show "ssrLoadModule (Suc n) E url0 urlStack s =
           Some (Returned (namespace_value (mod_ssrModule (fst (ensureEntryFromUrl E (unwrapId E url0) s)))),
                 snd (ensureEntryFromUrl E (unwrapId E url0) s))"
    using assms by (rule cycle_returns)
next
  assume "stack_live s urlStack"
  with cycle_live[OF assms this, of n]
  show "\<exists>a. ssrLoadModule (Suc n) E url0 urlStack s = Some (Returned (Ref a), s)" by blast
next
  fix m u st x assume "stack_live x st"
  then show "ssrLoadModule_checked m E u st x = ssrLoadModule m E u st x" by (rule checked_eq)
next
  fix m url st ds x r x'
  assume "stack_live x (st @ [url]) \<and> loadDeps (ssrLoadModule m E) url st ds x = Some (r, x')"
  then show "stack_live x' (st @ [url])" by (blast intro: deps_loaded_live)
next
  fix url dep st x
  assume "\<not> isExternal dep \<and> unwrapId E dep \<in> set st \<and> stack_live x st"
  then show "\<exists>a. ssrImport E url dep x = (Inr (Ref a), x)" by (blast intro: import_live)
next
  fix U m u x
  assume "finite U \<and> deps_closed E x U \<and> unwrapId E u \<in> U \<and> pendingModules x = Map.empty \<and> card U < m"
  then show "\<exists>x'. (\<exists>v. ssrLoadModule m E u [] x = Some (Returned v, x')) \<or>
                   (\<exists>e. ssrLoadModule m E u [] x = Some (Threw e, x'))"
    by (blast intro: load_returns_or_throws)
qed

lemma instantiate_frozen:
  assumes "urlToModuleMap s url = Some node" and "mod_ssrModule node = Some a"
    and "isFrozen (st_heap s) a"
  shows "instantiateModule_body load E url urlStack s = Some (Returned (Ref a), s)"
  using assms instantiate_cases[OF ensure_idem[OF assms(1), of E], of load urlStack]
  by (simp add: already_instantiated_def namespace_value_def)

lemma load_frozen_cases:
  assumes "urlToModuleMap s (unwrapId E url0) = Some node" and "mod_ssrModule node = Some a"
    and "isFrozen (st_heap s) a"
  shows "instantiateModule n E (unwrapId E url0) urlStack s = Some (Returned (Ref a), s) \<and>
         (unwrapId E url0 \<in> set urlStack \<longrightarrow>
            ssrLoadModule (Suc n) E url0 urlStack s = Some (Returned (Ref a), s)) \<and>
         (unwrapId E url0 \<notin> set urlStack \<and> pendingModules s (unwrapId E url0) = None \<longrightarrow>
            (\<exists>s'. ssrLoadModule (Suc n) E url0 urlStack s = Some (Returned (Ref a), s') \<and>
                  st_heap s' = st_heap s \<and> urlToModuleMap s' = urlToModuleMap s \<and>
                  pendingModules s' = pendingModules s \<and> resolveCache s' = resolveCache s \<and>
                  promises s' = promises s @ [(unwrapId E url0, Fulfilled (Ref a))])) \<and>
         (\<forall>p. unwrapId E url0 \<notin> set urlStack \<and> pendingModules s (unwrapId E url0) = Some p \<longrightarrow>
            ssrLoadModule (Suc n) E url0 urlStack s = Some (await_promise s p, s))"
proof (intro conjI allI impI)
  show "instantiateModule n E (unwrapId E url0) urlStack s = Some (Returned (Ref a), s)"
    unfolding instantiateModule_def using assms by (rule instantiate_frozen)
next
  assume "unwrapId E url0 \<in> set urlStack"
  from cycle_returns[OF this, of n s] ensure_idem[OF assms(1), of E] assms(2)
  show "ssrLoadModule (Suc n) E url0 urlStack s = Some (Returned (Ref a), s)"
    by (simp add: namespace_value_def)
next
  assume h: "unwrapId E url0 \<notin> set urlStack \<and> pendingModules s (unwrapId E url0) = None"
  let ?url = "unwrapId E url0"
  let ?p = "length (promises s)"
  define s1 where "s1 = s\<lparr> promises := promises s @ [(?url, Unsettled)],
                      pendingModules := (pendingModules s)(?url \<mapsto> ?p),
                      cleanups := cleanups s @ [(?p, ?url)] \<rparr>"
  have fr: "ssrLoadModule_front E url0 urlStack s = (Started ?p, s1)"
    using front_started[of E url0 urlStack s] h ensure_idem[OF assms(1), of E]
    by (simp add: s1_def)
  have n1: "urlToModuleMap s1 ?url = Some node" "isFrozen (st_heap s1) a"
    using assms by (simp_all add: s1_def)
  have i: "instantiateModule_body (ssrLoadModule n E) E ?url urlStack s1 = Some (Returned (Ref a), s1)"
    using n1(1) assms(2) n1(2) by (rule instantiate_frozen)
  have l: "ssrLoadModule (Suc n) E url0 urlStack s =
        Some (Returned (Ref a), run_cleanup ?p ?url (settle ?p (Returned (Ref a)) s1))"
    by (rule load_started[OF fr i]) simp
  have "pendingModules (run_cleanup ?p ?url (settle ?p (Returned (Ref a)) s1)) = pendingModules s"
    using h by (simp add: run_cleanup_def s1_def fun_eq_iff)
  moreover have "promises (run_cleanup ?p ?url (settle ?p (Returned (Ref a)) s1)) =
      promises s @ [(?url, Fulfilled (Ref a))]"
    by (simp add: run_cleanup_def settle_def s1_def)
  moreover have "st_heap (run_cleanup ?p ?url (settle ?p (Returned (Ref a)) s1)) = st_heap s"
    "urlToModuleMap (run_cleanup ?p ?url (settle ?p (Returned (Ref a)) s1)) = urlToModuleMap s"
    "resolveCache (run_cleanup ?p ?url (settle ?p (Returned (Ref a)) s1)) = resolveCache s"
    by (simp_all add: run_cleanup_def s1_def)
  ultimately show "\<exists>s'. ssrLoadModule (Suc n) E url0 urlStack s = Some (Returned (Ref a), s') \<and>
                  st_heap s' = st_heap s \<and> urlToModuleMap s' = urlToModuleMap s \<and>
                  pendingModules s' = pendingModules s \<and> resolveCache s' = resolveCache s \<and>
                  promises s' = promises s @ [(unwrapId E url0, Fulfilled (Ref a))]"
    using l by blast
next
  fix p assume h: "unwrapId E url0 \<notin> set urlStack \<and> pendingModules s (unwrapId E url0) = Some p"
  with front_joined[of E url0 urlStack s p] ensure_idem[OF assms(1), of E]
  show "ssrLoadModule (Suc n) E url0 urlStack s = Some (await_promise s p, s)" by simp
qed

text \<open>
  C3. Idempotence. In a state where the node of the identifier holds a frozen namespace,
  \<^verbatim>\<open>instantiateModule\<close> returns that same object and changes nothing, whatever the code of
  the module is. So does a load that finds the identifier on its call stack. A load that
  finds no pending entry returns that same object too, and leaves the heap, the module
  graph, the pending table and the resolve cache as they were: it only adds the promise of
  its short-circuited instantiation, settled with the object. A load that finds a pending
  entry starts nothing and waits for that entry's promise. The state stays such a state,
  with the same object, after any load of any identifier. And it is the state a load of the
  identifier leaves when it has started the instantiation and returned: what that load
  returned is the object.
\<close>

theorem load_idempotent:
  assumes "frozen_at s (unwrapId E url0) a"
  shows "instantiateModule n E (unwrapId E url0) urlStack s = Some (Returned (Ref a), s) \<and>
         (unwrapId E url0 \<in> set urlStack \<longrightarrow>
            ssrLoadModule (Suc n) E url0 urlStack s = Some (Returned (Ref a), s)) \<and>
         (unwrapId E url0 \<notin> set urlStack \<and> pendingModules s (unwrapId E url0) = None \<longrightarrow>
            (\<exists>s'. ssrLoadModule (Suc n) E url0 urlStack s = Some (Returned (Ref a), s') \<and>
                  st_heap s' = st_heap s \<and> urlToModuleMap s' = urlToModuleMap s \<and>
                  pendingModules s' = pendingModules s \<and> resolveCache s' = resolveCache s \<and>
                  promises s' = promises s @ [(unwrapId E url0, Fulfilled (Ref a))])) \<and>
         (\<forall>p. unwrapId E url0 \<notin> set urlStack \<and> pendingModules s (unwrapId E url0) = Some p \<longrightarrow>
            ssrLoadModule (Suc n) E url0 urlStack s = Some (await_promise s p, s)) \<and>
         (\<forall>m u st r s'. ssrLoadModule m E u st s = Some (r, s') \<longrightarrow>
            frozen_at s' (unwrapId E url0) a) \<and>
         (\<forall>m st s0 v. unwrapId E url0 \<notin> set st \<and> pendingModules s0 (unwrapId E url0) = None \<and>
            ssrLoadModule m E url0 st s0 = Some (Returned v, s) \<longrightarrow> v = Ref a)"
proof -
  from assms obtain node where n: "urlToModuleMap s (unwrapId E url0) = Some node"
    "mod_ssrModule node = Some a" "isFrozen (st_heap s) a"
    by (auto simp: frozen_at_def split: option.splits)
  have later: "frozen_at s' (unwrapId E url0) a" if "ssrLoadModule m E u st s = Some (r, s')"
    for m u st r s'
    using load_keeps[OF that] assms by (simp add: keeps_def)
  have first: "v = Ref a"
    if "unwrapId E url0 \<notin> set st \<and> pendingModules s0 (unwrapId E url0) = None \<and>
        ssrLoadModule m E url0 st s0 = Some (Returned v, s)" for m st s0 v
  proof -
    from that load_returns_frozen[of m E url0 st s0 v s]
    obtain b where "v = Ref b" "frozen_at s (unwrapId E url0) b" by blast
    with assms show ?thesis by (simp add: frozen_at_fun)
  qed
  from load_frozen_cases[OF n, of n urlStack] later first show ?thesis by blast
qed

lemma settle_await:
  assumes "p < length (promises s)" and "\<forall>q. r \<noteq> Awaiting q"
  shows "await_promise (run_cleanup p url (settle p r s)) p = r"
  using assms by (cases r) (simp_all add: await_promise_def run_cleanup_def settle_def)

text \<open>
  C9. Failure contract. Take a load that starts an instantiation (its identifier is not on
  the call stack and not pending) and ends, returning or throwing. Its outcome is the
  outcome of the instantiation, unchanged; the promise of the instantiation is settled with
  that outcome, so every request waiting on the promise gets the same value or the same
  error; the pending entry of the identifier is gone, on both outcomes; and a later load of
  the identifier starts a new instantiation. When the node holds no frozen namespace, the
  outcome is decided as follows. A rejected transform makes the load throw the error of the
  transform. A transform without result makes it throw the error that names the identifier.
  With a transform result, a load of a dependency that throws makes it throw that same
  error; and when the dependencies are loaded, code that raises makes it throw what the
  \<^verbatim>\<open>catch\<close> block throws again (the error raised, or the error of the block's own write to
  \<^verbatim>\<open>e.stack\<close>), and only code that raises nothing makes it return the namespace.
\<close>

theorem load_failure_contract:
  assumes "unwrapId E url0 \<notin> set urlStack" and "pendingModules s (unwrapId E url0) = None"
    and "ssrLoadModule (Suc n) E url0 urlStack s = Some (r, s')" and "\<forall>q. r \<noteq> Awaiting q"
  shows "(\<exists>s2. instantiateModule n E (unwrapId E url0) urlStack
                 (snd (ssrLoadModule_front E url0 urlStack s)) = Some (r, s2)) \<and>
         await_promise s' (length (promises s)) = r \<and>
         pendingModules s' (unwrapId E url0) = None \<and>
         fst (ssrLoadModule_front E url0 urlStack s') = Started (length (promises s')) \<and>
         (\<not> already_instantiated (fst (ensureEntryFromUrl E (unwrapId E url0) s)) s \<longrightarrow>
            (\<forall>e. effective_transform E s (unwrapId E url0) = Inl e \<longrightarrow> r = Threw e) \<and>
            (effective_transform E s (unwrapId E url0) = Inr None \<longrightarrow>
               r = Threw (Error (''failed to load module for ssr: '' @ unwrapId E url0))) \<and>
            (\<forall>result. effective_transform E s (unwrapId E url0) = Inr (Some result) \<longrightarrow>
               (case loadDeps (ssrLoadModule n E) (unwrapId E url0) urlStack (deps result)
                       (assign_namespace (unwrapId E url0)
                          (fst (ensureEntryFromUrl E (unwrapId E url0) s))
                          (snd (ssrLoadModule_front E url0 urlStack s))) of
                  None \<Rightarrow> False
                | Some (Awaiting q, s3) \<Rightarrow> False
                | Some (Threw e, s3) \<Rightarrow> r = Threw e
                | Some (Returned u, s3) \<Rightarrow>
                    (case runBody (code result) E (unwrapId E url0) (length (st_heap s)) s3 of
                       (Some e, s4) \<Rightarrow> r = Threw (fst (catch_block E (st_heap s4) e))
                     | (None, s4) \<Rightarrow> r = Returned (Ref (length (st_heap s)))))))"
proof -
  let ?url = "unwrapId E url0"
  let ?p = "length (promises s)"
  let ?node = "fst (ensureEntryFromUrl E ?url s)"
  define s1 where "s1 = (snd (ensureEntryFromUrl E ?url s))
                   \<lparr> promises := promises s @ [(?url, Unsettled)],
                      pendingModules := (pendingModules s)(?url \<mapsto> ?p),
                      cleanups := cleanups s @ [(?p, ?url)] \<rparr>"
  have fr: "ssrLoadModule_front E url0 urlStack s = (Started ?p, s1)"
    unfolding s1_def using assms(1,2) by (rule front_started)
  from assms(3) fr obtain r2 s2 where
    i: "instantiateModule_body (ssrLoadModule n E) E ?url urlStack s1 = Some (r2, s2)"
    by (cases "instantiateModule_body (ssrLoadModule n E) E ?url urlStack s1") auto
  have r2: "r2 = r" using assms(3,4) fr i by (cases r2) auto
  have "Some (r, s') = Some (r, run_cleanup ?p ?url (settle ?p r s2))"
    unfolding assms(3)[symmetric] using load_started[OF fr i[unfolded r2] assms(4)] .
  then have s': "s' = run_cleanup ?p ?url (settle ?p r s2)" by simp
  have "extends s1 s2"
    by (rule instantiate_extends[where load = "ssrLoadModule n E", OF _ i]) (rule load_extends)
  then have len: "?p < length (promises s2)" by (simp add: extends_def s1_def)
  have c1: "\<exists>s2. instantiateModule n E ?url urlStack (snd (ssrLoadModule_front E url0 urlStack s)) = Some (r, s2)"
    using i r2 fr by (simp add: instantiateModule_def)
  have c2: "await_promise s' ?p = r" unfolding s' using len assms(4) by (rule settle_await)
  have c3: "pendingModules s' ?url = None" unfolding s' by (simp add: run_cleanup_def)
  have c4: "fst (ssrLoadModule_front E url0 urlStack s') = Started (length (promises s'))"
    using front_started[OF assms(1) c3] by simp
  have n1: "urlToModuleMap s1 ?url = Some ?node" by (simp add: s1_def ensure_node)
  have h1: "st_heap s1 = st_heap s" by (simp add: s1_def)
  have t: "transform_result_of E ?url ?node = effective_transform E s ?url"
    using transform_result_of_ensure[of E ?url s] by simp
  have c5: "(\<forall>e. effective_transform E s ?url = Inl e \<longrightarrow> r = Threw e) \<and>
            (effective_transform E s ?url = Inr None \<longrightarrow>
               r = Threw (Error (''failed to load module for ssr: '' @ ?url))) \<and>
            (\<forall>result. effective_transform E s ?url = Inr (Some result) \<longrightarrow>
               (case loadDeps (ssrLoadModule n E) ?url urlStack (deps result)
                       (assign_namespace ?url ?node (snd (ssrLoadModule_front E url0 urlStack s))) of
                  None \<Rightarrow> False
                | Some (Awaiting q, s3) \<Rightarrow> False
                | Some (Threw e, s3) \<Rightarrow> r = Threw e
                | Some (Returned u, s3) \<Rightarrow>
                    (case runBody (code result) E ?url (length (st_heap s)) s3 of
                       (Some e, s4) \<Rightarrow> r = Threw (fst (catch_block E (st_heap s4) e))
                     | (None, s4) \<Rightarrow> r = Returned (Ref (length (st_heap s))))))"
    if nf: "\<not> already_instantiated ?node s"
  proof -
    have na: "\<not> already_instantiated ?node s1"
      using nf unfolding already_instantiated_def h1 .
    note ic = instantiate_cases[OF ensure_idem[OF n1, of E], of "ssrLoadModule n E" urlStack]
    have a: "r = Threw e" if "effective_transform E s ?url = Inl e" for e
      using ic na t i r2 that by simp
    have b: "r = Threw (Error (''failed to load module for ssr: '' @ ?url))"
      if "effective_transform E s ?url = Inr None"
      using ic na t i r2 that by simp
    have c: "(case loadDeps (ssrLoadModule n E) ?url urlStack (deps result)
                       (assign_namespace ?url ?node (snd (ssrLoadModule_front E url0 urlStack s))) of
                  None \<Rightarrow> False
                | Some (Awaiting q, s3) \<Rightarrow> False
                | Some (Threw e, s3) \<Rightarrow> r = Threw e
                | Some (Returned u, s3) \<Rightarrow>
                    (case runBody (code result) E ?url (length (st_heap s)) s3 of
                       (Some e, s4) \<Rightarrow> r = Threw (fst (catch_block E (st_heap s4) e))
                     | (None, s4) \<Rightarrow> r = Returned (Ref (length (st_heap s)))))"
      if tr: "effective_transform E s ?url = Inr (Some result)" for result
    proof (cases "loadDeps (ssrLoadModule n E) ?url urlStack (deps result) (assign_namespace ?url ?node s1)")
      case None
      with ic na t i tr show ?thesis by simp
    next
      case (Some x)
      obtain r3 s3 where x: "x = (r3, s3)" by (cases x)
      note ld = Some[unfolded x]
      show ?thesis
      proof (cases r3)
        case (Awaiting q)
        with ic na t i tr ld r2 assms(4) show ?thesis by simp
      next
        case (Threw e)
        with ic na t i tr ld r2 fr show ?thesis by simp
      next
        case (Returned u)
        with ic na t i tr ld r2 h1
        have ev: "evaluateModule E ?url (length (st_heap s)) result s3 = (r, s2)" by simp
        obtain err s4 where rb: "runBody (code result) E ?url (length (st_heap s)) s3 = (err, s4)"
          by (cases "runBody (code result) E ?url (length (st_heap s)) s3")
        from ev rb have "case err of Some e \<Rightarrow> r = Threw (fst (catch_block E (st_heap s4) e))
                          | None \<Rightarrow> r = Returned (Ref (length (st_heap s)))"
          by (auto simp: evaluateModule_def split: option.splits)
        with Returned ld rb fr show ?thesis by (simp split: option.splits)
      qed
    qed
    from a b c show ?thesis by blast
  qed
  from c1 c2 c3 c4 c5 show ?thesis by blast
qed

text \<open>
  C4. A specifier is external exactly when it does not start with \<^verbatim>\<open>.\<close> or \<^verbatim>\<open>/\<close>. The loop
  over the declared dependencies is the sequence of awaited loads of the internal ones, in
  the declared order, each with the call stack extended by the module's own url, each
  started in the state the one before it ended in, and ended by the first load that does not
  return; external specifiers are skipped. An instantiation that has a transform result runs
  exactly this sequence, after its namespace is assigned and before its code is evaluated.
\<close>

theorem loadDeps_internal_in_order:
  assumes "ensureEntryFromUrl E url s = (node, s1)" and "\<not> already_instantiated node s1"
    and "transform_result_of E url node = Inr (Some result)"
  shows "(\<forall>dep. isExternal dep \<longleftrightarrow> \<not> internal_specifier dep) \<and>
         (\<forall>ds x. loadDeps load url urlStack ds x =
                  load_in_order load (urlStack @ [url]) (filter internal_specifier ds) x) \<and>
         instantiateModule_body load E url urlStack s =
           (case load_in_order load (urlStack @ [url]) (filter internal_specifier (deps result))
                   (assign_namespace url node s1) of
              None \<Rightarrow> None
            | Some (Returned u, s3) \<Rightarrow> Some (evaluateModule E url (length (st_heap s1)) result s3)
            | Some (r, s3) \<Rightarrow> Some (r, s3))"
  using assms by (simp add: instantiate_cases[OF assms(1)] loadDeps_eq isExternal_iff)

section \<open>The tasks keep to the protocol of the pending table\<close>

lemma run_events_append:
  "run_events E (es1 @ es2) s =
     (case run_events E es1 s of None \<Rightarrow> None | Some s1 \<Rightarrow> run_events E es2 s1)"
  by (induction es1 arbitrary: s) (auto split: option.splits)

lemma run_append:
  "run E (as1 @ as2) c = (case run E as1 c of None \<Rightarrow> None | Some c1 \<Rightarrow> run E as2 c1)"
  by (induction as1 arbitrary: c) (auto split: option.splits)

lemma sim_work:
  assumes "same_protocol x s"
  shows "apply_event E (Work (\<lambda>u. x)) s = Some x"
proof -
  from assms have "pendingModules s = pendingModules x" "promises s = promises x"
    "cleanups s = cleanups x" by (simp_all add: same_protocol_def)
  then show ?thesis by simp
qed

lemma sim_settle:
  assumes "p < length (promises s)" and "snd (promises s ! p) = Unsettled" and "\<forall>q. r \<noteq> Awaiting q"
  shows "apply_event E (Settle p r) s = Some (settle p r s)"
  using assms by (cases r) simp_all

lemma settle_settled:
  assumes "p < length (promises s)" and "\<forall>q. r \<noteq> Awaiting q"
  shows "snd (promises (settle p r s) ! p) \<noteq> Unsettled"
  using assms by (cases r) (simp_all add: settle_def)

lemma settled_event:
  assumes "q < length (promises s)" and "snd (promises s ! q) \<noteq> Unsettled"
    and "apply_event E e s = Some s'"
  shows "q < length (promises s') \<and> promises s' ! q = promises s ! q"
proof (cases e)
  case (Call u st)
  obtain r x where f: "ssrLoadModule_front E u st s = (r, x)" by (cases "ssrLoadModule_front E u st s")
  from front_result[OF f] assms(1) have "q < length (promises x) \<and> promises x ! q = promises s ! q"
    by (elim disjE conjE exE) (simp_all add: nth_append)
  with Call assms(3) f show ?thesis by simp
next
  case (Work f)
  with assms show ?thesis by auto
next
  case (Settle p r)
  with assms have "p \<noteq> q" and s': "s' = settle p r s" by (auto split: if_splits)
  then show ?thesis using assms(1) by (simp add: settle_other)
next
  case (Cleanup p u)
  with assms show ?thesis by (auto simp: run_cleanup_def split: if_splits)
qed

lemma settled_run:
  assumes "q < length (promises s)" and "snd (promises s ! q) \<noteq> Unsettled"
    and "run_events E es s = Some s'"
  shows "q < length (promises s') \<and> promises s' ! q = promises s ! q"
  using assms
proof (induction es arbitrary: s)
  case Nil
  then show ?case by simp
next
  case (Cons e es)
  from Cons.prems(3) obtain s1 where e: "apply_event E e s = Some s1" and r: "run_events E es s1 = Some s'"
    by (auto split: option.splits)
  from settled_event[OF Cons.prems(1,2) e] have 1: "q < length (promises s1)" "promises s1 ! q = promises s ! q"
    by simp_all
  with Cons.prems(2) have "snd (promises s1 ! q) \<noteq> Unsettled" by simp
  from Cons.IH[OF 1(1) this r] 1(2) show ?case by simp
qed

lemma request_fst [simp]: "fst (request E u st c) = fst (ssrLoadModule_front E u st (loader c))"
  by (simp add: request_def split: prod.splits front.splits)

lemma request_loader [simp]:
  "loader (snd (request E u st c)) = snd (ssrLoadModule_front E u st (loader c))"
  by (simp add: request_def split: prod.splits front.splits)

lemma request_evaluated [simp]: "evaluated (snd (request E u st c)) = evaluated c"
  by (simp add: request_def split: prod.splits front.splits)

lemma request_tasks:
  "tasks (snd (request E u st c)) =
     (case fst (ssrLoadModule_front E u st (loader c)) of
        Started q \<Rightarrow> (tasks c)(q \<mapsto> \<lparr> t_url = unwrapId E u, t_stack = st, t_pc = AtEntry \<rparr>)
      | _ \<Rightarrow> tasks c)"
  by (simp add: request_def split: prod.splits front.splits)

lemma goto_simps [simp]:
  "loader (goto p t l c) = loader c"
  "evaluated (goto p t l c) = evaluated c"
  "tasks (goto p t l c) = (tasks c)(p \<mapsto> t\<lparr> t_pc := l \<rparr>)"
  by (simp_all add: goto_def)

lemma finish_simps [simp]:
  "loader (finish_task p t r c) = settle p r (loader c)"
  "evaluated (finish_task p t r c) = evaluated c"
  "tasks (finish_task p t r c) = (tasks c)(p \<mapsto> t\<lparr> t_pc := Ended \<rparr>)"
  by (simp_all add: finish_task_def)

lemma same_protocol_refl [simp]: "same_protocol s s"
  by (simp add: same_protocol_def)

lemma advance_shape:
  assumes "advance E p c = Some c'"
  shows "\<exists>t. tasks c p = Some t \<and> t_pc t \<noteq> Ended \<and>
     ((\<exists>l x. l \<noteq> Ended \<and> same_protocol x (loader c) \<and> c' = goto p t l (c\<lparr> loader := x \<rparr>)) \<or>
      (\<exists>r x. (\<forall>q. r \<noteq> Awaiting q) \<and> same_protocol x (loader c) \<and>
             c' = finish_task p t r (c\<lparr> loader := x \<rparr>)) \<or>
      (\<exists>r x. (\<forall>q. r \<noteq> Awaiting q) \<and> same_protocol x (loader c) \<and>
             c' = finish_task p t r (c\<lparr> loader := x, evaluated := evaluated c @ [t_url t] \<rparr>)) \<or>
      (\<exists>dep l. l \<noteq> Ended \<and> c' = goto p t l (snd (request E dep (t_stack t @ [t_url t]) c))))"
proof -
  from assms obtain t where t: "tasks c p = Some t" by (auto simp: advance_def split: option.splits)
  have cc: "c\<lparr> loader := loader c \<rparr> = c" by simp
  show ?thesis
  proof (cases "t_pc t")
    case Ended
    with assms t show ?thesis by (simp add: advance_def)
  next
    case AtEntry
    obtain node s1 where e: "ensureEntryFromUrl E (t_url t) (loader c) = (node, s1)"
      by (cases "ensureEntryFromUrl E (t_url t) (loader c)")
    from ensure_frame[of E "t_url t" "loader c"] e have f1: "same_protocol s1 (loader c)"
      by (simp add: same_protocol_def)
    then have f2: "same_protocol (assign_namespace (t_url t) node s1) (loader c)"
      by (simp add: same_protocol_def)
    show ?thesis
    proof (cases "already_instantiated node s1")
      case True
      with assms t AtEntry e
      have "c' = finish_task p t (Returned (namespace_value (mod_ssrModule node))) (c\<lparr> loader := s1 \<rparr>)"
        by (simp add: advance_def)
      with t AtEntry f1 show ?thesis by (intro exI[of _ t]) auto
    next
      case False
      with assms t AtEntry e
      have "\<exists>l. l \<noteq> Ended \<and> c' = goto p t l (c\<lparr> loader := assign_namespace (t_url t) node s1 \<rparr>)"
        by (auto simp: advance_def Let_def split: option.splits)
      with t AtEntry f2 show ?thesis by (intro exI[of _ t]) auto
    qed
  next
    case (AtTransform ns)
    show ?thesis
    proof (cases "transformRequest E (t_url t)")
      case (Inl e)
      with assms t AtTransform have "c' = finish_task p t (Threw e) (c\<lparr> loader := loader c \<rparr>)"
        by (simp add: advance_def)
      with t AtTransform show ?thesis
        by (intro exI[of _ t]) (auto intro!: exI[of _ "Threw e"] exI[of _ "loader c"])
    next
      case (Inr tr)
      show ?thesis
      proof (cases tr)
        case None
        with Inr assms t AtTransform
        have "c' = finish_task p t (Threw (Error (''failed to load module for ssr: '' @ t_url t)))
                     (c\<lparr> loader := loader c \<rparr>)"
          by (simp add: advance_def)
        with t AtTransform show ?thesis
          by (intro exI[of _ t])
             (auto intro!: exI[of _ "Threw (Error (''failed to load module for ssr: '' @ t_url t))"]
                exI[of _ "loader c"])
      next
        case (Some result)
        with Inr assms t AtTransform
        have "c' = goto p t (AtDeps ns result (deps result)) (c\<lparr> loader := loader c \<rparr>)"
          by (simp add: advance_def)
        with t AtTransform show ?thesis
          by (intro exI[of _ t]) (auto intro!: exI[of _ "AtDeps ns result (deps result)"] exI[of _ "loader c"])
      qed
    qed
  next
    case (AtDeps ns result ds)
    show ?thesis
    proof (cases ds)
      case Nil
      obtain r s1 where ev: "evaluateModule E (t_url t) ns result (loader c) = (r, s1)"
        by (cases "evaluateModule E (t_url t) ns result (loader c)")
      from evaluate_frame[of E "t_url t" ns result "loader c"] ev
      have f: "same_protocol s1 (loader c)" by (simp add: same_protocol_def)
      from evaluate_ended[of E "t_url t" ns result "loader c"] ev have nr: "\<forall>q. r \<noteq> Awaiting q" by auto
      from assms t AtDeps Nil ev
      have "c' = finish_task p t r (c\<lparr> loader := s1, evaluated := evaluated c @ [t_url t] \<rparr>)"
        by (simp add: advance_def)
      with t AtDeps f nr show ?thesis by (intro exI[of _ t]) auto
    next
      case (Cons dep ds')
      show ?thesis
      proof (cases "isExternal dep")
        case True
        with assms t AtDeps Cons have "c' = goto p t (AtDeps ns result ds') (c\<lparr> loader := loader c \<rparr>)"
          by (simp add: advance_def)
        with t AtDeps show ?thesis
          by (intro exI[of _ t]) (auto intro!: exI[of _ "AtDeps ns result ds'"] exI[of _ "loader c"])
      next
        case False
        with assms t AtDeps Cons
        have "\<exists>l. l \<noteq> Ended \<and> c' = goto p t l (snd (request E dep (t_stack t @ [t_url t]) c))"
          by (auto simp: advance_def split: prod.splits front.splits)
        with t AtDeps show ?thesis by (intro exI[of _ t]) auto
      qed
    qed
  next
    case (AtAwait ns result ds q)
    show ?thesis
    proof (cases "await_promise (loader c) q")
      case (Awaiting w)
      with assms t AtAwait show ?thesis by (simp add: advance_def)
    next
      case (Returned v)
      with assms t AtAwait have "c' = goto p t (AtDeps ns result ds) (c\<lparr> loader := loader c \<rparr>)"
        by (simp add: advance_def)
      with t AtAwait show ?thesis
        by (intro exI[of _ t]) (auto intro!: exI[of _ "AtDeps ns result ds"] exI[of _ "loader c"])
    next
      case (Threw e)
      with assms t AtAwait have "c' = finish_task p t (Threw e) (c\<lparr> loader := loader c \<rparr>)"
        by (simp add: advance_def)
      with t AtAwait show ?thesis
        by (intro exI[of _ t]) (auto intro!: exI[of _ "Threw e"] exI[of _ "loader c"])
    qed
  qed
qed

lemma step_simulated:
  assumes inv: "tasks_inv c" and st: "step E a c = Some c'"
  shows "\<exists>es. run_events E es (loader c) = Some (loader c') \<and>
              (\<forall>q r. Settle q r \<in> set es \<longrightarrow>
                 q < length (promises (loader c')) \<and> snd (promises (loader c') ! q) \<noteq> Unsettled)"
proof (cases a)
  case (Request u stk)
  with st have "run_events E [Call u stk] (loader c) = Some (loader c')" by auto
  then show ?thesis by (intro exI[of _ "[Call u stk]"]) simp
next
  case (React p u)
  with st have "run_events E [Cleanup p u] (loader c) = Some (loader c')"
    by (auto split: if_splits)
  then show ?thesis by (intro exI[of _ "[Cleanup p u]"]) simp
next
  case (Advance p)
  with st have adv: "advance E p c = Some c'" by simp
  from advance_shape[OF adv] obtain t where t: "tasks c p = Some t" and ne: "t_pc t \<noteq> Ended"
    and sh: "(\<exists>l x. l \<noteq> Ended \<and> same_protocol x (loader c) \<and> c' = goto p t l (c\<lparr> loader := x \<rparr>)) \<or>
      (\<exists>r x. (\<forall>q. r \<noteq> Awaiting q) \<and> same_protocol x (loader c) \<and>
             c' = finish_task p t r (c\<lparr> loader := x \<rparr>)) \<or>
      (\<exists>r x. (\<forall>q. r \<noteq> Awaiting q) \<and> same_protocol x (loader c) \<and>
             c' = finish_task p t r (c\<lparr> loader := x, evaluated := evaluated c @ [t_url t] \<rparr>)) \<or>
      (\<exists>dep l. l \<noteq> Ended \<and> c' = goto p t l (snd (request E dep (t_stack t @ [t_url t]) c)))"
    by blast
  from inv t ne have p: "p < length (promises (loader c))" "snd (promises (loader c) ! p) = Unsettled"
    by (auto simp: tasks_inv_def)
  have fin: "\<exists>es. run_events E es (loader c) = Some (settle p r x) \<and>
              (\<forall>q r'. Settle q r' \<in> set es \<longrightarrow>
                 q < length (promises (settle p r x)) \<and> snd (promises (settle p r x) ! q) \<noteq> Unsettled)"
    if nr: "\<forall>q. r \<noteq> Awaiting q" and sp: "same_protocol x (loader c)" for r x
  proof -
    from sp p have px: "p < length (promises x)" "snd (promises x ! p) = Unsettled"
      by (simp_all add: same_protocol_def)
    have "run_events E [Work (\<lambda>u. x), Settle p r] (loader c) = Some (settle p r x)"
      using sim_work[OF sp, of E] sim_settle[OF px nr, of E] by simp
    moreover have "snd (promises (settle p r x) ! p) \<noteq> Unsettled"
      using px(1) nr by (rule settle_settled)
    ultimately show ?thesis using px(1) by (intro exI[of _ "[Work (\<lambda>u. x), Settle p r]"]) auto
  qed
  from sh show ?thesis
  proof (elim disjE exE conjE)
    fix l x assume "same_protocol x (loader c)" and c': "c' = goto p t l (c\<lparr> loader := x \<rparr>)"
    then have "run_events E [Work (\<lambda>u. x)] (loader c) = Some (loader c')"
      using sim_work[of x "loader c" E] by simp
    then show ?thesis by (intro exI[of _ "[Work (\<lambda>u. x)]"]) simp
  next
    fix r x assume "\<forall>q. r \<noteq> Awaiting q" "same_protocol x (loader c)"
      and c': "c' = finish_task p t r (c\<lparr> loader := x \<rparr>)"
    from fin[OF this(1,2)] c' show ?thesis by simp
  next
    fix r x assume "\<forall>q. r \<noteq> Awaiting q" "same_protocol x (loader c)"
      and c': "c' = finish_task p t r (c\<lparr> loader := x, evaluated := evaluated c @ [t_url t] \<rparr>)"
    from fin[OF this(1,2)] c' show ?thesis by simp
  next
    fix dep l assume c': "c' = goto p t l (snd (request E dep (t_stack t @ [t_url t]) c))"
    then have "run_events E [Call dep (t_stack t @ [t_url t])] (loader c) = Some (loader c')" by simp
    then show ?thesis by (intro exI[of _ "[Call dep (t_stack t @ [t_url t])]"]) simp
  qed
qed

lemma front_promises:
  "\<exists>ps. promises (snd (ssrLoadModule_front E u st s)) = promises s @ ps \<and>
        (case fst (ssrLoadModule_front E u st s) of
           Started q \<Rightarrow> q = length (promises s) \<and> ps = [(unwrapId E u, Unsettled)]
         | _ \<Rightarrow> ps = [])"
proof -
  obtain r x where f: "ssrLoadModule_front E u st s = (r, x)" by (cases "ssrLoadModule_front E u st s")
  from front_result[OF f] f show ?thesis by (elim disjE conjE exE) auto
qed

lemma request_inv:
  assumes inv: "tasks_inv c"
  shows "tasks_inv (snd (request E u st c))"
proof -
  let ?f = "ssrLoadModule_front E u st (loader c)"
  from inv have pi: "pending_inv (snd ?f)"
    by (simp add: tasks_inv_def pending_inv_front)
  from front_promises[of E u st "loader c"] obtain ps where
    ps: "promises (snd ?f) = promises (loader c) @ ps"
    and sh: "(case fst ?f of
           Started q \<Rightarrow> q = length (promises (loader c)) \<and> ps = [(unwrapId E u, Unsettled)]
         | _ \<Rightarrow> ps = [])" by blast
  have old: "p < length (promises (loader c) @ ps) \<and> fst ((promises (loader c) @ ps) ! p) = t_url t \<and>
         (t_pc t \<noteq> Ended \<longrightarrow> snd ((promises (loader c) @ ps) ! p) = Unsettled)"
    if tk: "tasks c p = Some t" for p t
  proof -
    from inv tk have "p < length (promises (loader c))" "fst (promises (loader c) ! p) = t_url t"
      "t_pc t \<noteq> Ended \<longrightarrow> snd (promises (loader c) ! p) = Unsettled"
      by (auto simp: tasks_inv_def)
    then show ?thesis by (simp add: nth_append)
  qed
  show ?thesis
  proof (cases "fst ?f")
    case (Started q)
    with sh have q: "q = length (promises (loader c))" and pse: "ps = [(unwrapId E u, Unsettled)]"
      by simp_all
    show ?thesis
      unfolding tasks_inv_def request_loader request_tasks Started front.case ps
      using pi old by (auto simp: ps q pse nth_append)
  next
    case (Cycle v)
    show ?thesis
      unfolding tasks_inv_def request_loader request_tasks Cycle front.case ps
      using pi old by (auto simp: ps)
  next
    case (Joined w)
    show ?thesis
      unfolding tasks_inv_def request_loader request_tasks Joined front.case ps
      using pi old by (auto simp: ps)
  qed
qed

lemma goto_inv:
  assumes "tasks_inv c" and "tasks c p = Some t0" and "t_pc t0 \<noteq> Ended" and "t_url t = t_url t0"
  shows "tasks_inv (goto p t l c)"
  using assms by (auto simp: tasks_inv_def)

lemma finish_inv:
  assumes "tasks_inv c" and "tasks c p = Some t0" and "t_url t = t_url t0"
  shows "tasks_inv (finish_task p t r c)"
proof -
  from assms(1) have "pending_inv (settle p r (loader c))"
    by (simp add: tasks_inv_def pending_inv_settle)
  moreover have "q < length (promises (loader c)) \<and> fst (promises (loader c) ! q) = t_url t' \<and>
      (t_pc t' \<noteq> Ended \<longrightarrow> snd (promises (settle p r (loader c)) ! q) = Unsettled)"
    if "((tasks c)(p \<mapsto> t\<lparr> t_pc := Ended \<rparr>)) q = Some t'" for q t'
    using that assms by (cases "q = p") (auto simp: tasks_inv_def settle_other)
  ultimately show ?thesis by (simp add: tasks_inv_def)
qed

lemma loader_change_inv:
  assumes "tasks_inv c" and "same_protocol x (loader c)"
  shows "tasks_inv (c\<lparr> loader := x \<rparr>)"
  using assms by (simp add: tasks_inv_def same_protocol_def pending_inv_def)

lemma step_inv:
  assumes inv: "tasks_inv c" and st: "step E a c = Some c'"
  shows "tasks_inv c'"
proof (cases a)
  case (Request u stk)
  with st request_inv[OF inv, of E u stk] show ?thesis by auto
next
  case (React p u)
  with st have c': "c' = c\<lparr> loader := run_cleanup p u (loader c) \<rparr>"
    and e: "apply_event E (Cleanup p u) (loader c) = Some (run_cleanup p u (loader c))"
    by (auto split: if_splits)
  from inv have "pending_inv (loader c)" by (simp add: tasks_inv_def)
  from pending_inv_event[OF this e] inv show ?thesis
    by (simp add: c' tasks_inv_def run_cleanup_def)
next
  case (Advance p)
  with st have adv: "advance E p c = Some c'" by simp
  from advance_shape[OF adv] obtain t where t: "tasks c p = Some t" and ne: "t_pc t \<noteq> Ended"
    and sh: "(\<exists>l x. l \<noteq> Ended \<and> same_protocol x (loader c) \<and> c' = goto p t l (c\<lparr> loader := x \<rparr>)) \<or>
      (\<exists>r x. (\<forall>q. r \<noteq> Awaiting q) \<and> same_protocol x (loader c) \<and>
             c' = finish_task p t r (c\<lparr> loader := x \<rparr>)) \<or>
      (\<exists>r x. (\<forall>q. r \<noteq> Awaiting q) \<and> same_protocol x (loader c) \<and>
             c' = finish_task p t r (c\<lparr> loader := x, evaluated := evaluated c @ [t_url t] \<rparr>)) \<or>
      (\<exists>dep l. l \<noteq> Ended \<and> c' = goto p t l (snd (request E dep (t_stack t @ [t_url t]) c)))"
    by blast
  from sh show ?thesis
  proof (elim disjE exE conjE)
    fix l x assume sp: "same_protocol x (loader c)" and c': "c' = goto p t l (c\<lparr> loader := x \<rparr>)"
    show ?thesis unfolding c'
      by (rule goto_inv[OF loader_change_inv[OF inv sp]]) (use t ne in simp_all)
  next
    fix r x assume sp: "same_protocol x (loader c)" and c': "c' = finish_task p t r (c\<lparr> loader := x \<rparr>)"
    show ?thesis unfolding c'
      by (rule finish_inv[OF loader_change_inv[OF inv sp]]) (use t in simp_all)
  next
    fix r x assume sp: "same_protocol x (loader c)"
      and c': "c' = finish_task p t r (c\<lparr> loader := x, evaluated := evaluated c @ [t_url t] \<rparr>)"
    have "tasks_inv (c\<lparr> loader := x, evaluated := evaluated c @ [t_url t] \<rparr>)"
      using loader_change_inv[OF inv sp] by (simp add: tasks_inv_def)
    then show ?thesis unfolding c' by (rule finish_inv) (use t in simp_all)
  next
    fix dep l assume c': "c' = goto p t l (snd (request E dep (t_stack t @ [t_url t]) c))"
    let ?c1 = "snd (request E dep (t_stack t @ [t_url t]) c)"
    have i1: "tasks_inv ?c1" using inv by (rule request_inv)
    from inv t have pl: "p < length (promises (loader c))" by (auto simp: tasks_inv_def)
    have "tasks ?c1 p = Some t"
      using front_promises[of E dep "t_stack t @ [t_url t]" "loader c"] t pl
      by (auto simp: request_tasks split: front.splits)
    with i1 show ?thesis unfolding c' by (rule goto_inv) (use ne in simp_all)
  qed
qed

lemma quiet_inv: "quiet c \<Longrightarrow> tasks_inv c"
  by (simp add: quiet_def tasks_inv_def idle_inv)

lemma run_simulated:
  assumes "tasks_inv c" and "run E as c = Some c'"
  shows "tasks_inv c' \<and>
         (\<exists>es. run_events E es (loader c) = Some (loader c') \<and>
              (\<forall>q r. Settle q r \<in> set es \<longrightarrow>
                 q < length (promises (loader c')) \<and> snd (promises (loader c') ! q) \<noteq> Unsettled))"
  using assms
proof (induction as arbitrary: c)
  case Nil
  then show ?case by (auto intro: exI[of _ "[]"])
next
  case (Cons a as)
  from Cons.prems(2) obtain c1 where a: "step E a c = Some c1" and r: "run E as c1 = Some c'"
    by (auto split: option.splits)
  note i1 = step_inv[OF Cons.prems(1) a]
  from step_simulated[OF Cons.prems(1) a] obtain es1 where
    e1: "run_events E es1 (loader c) = Some (loader c1)"
    and s1: "\<forall>q r. Settle q r \<in> set es1 \<longrightarrow>
                 q < length (promises (loader c1)) \<and> snd (promises (loader c1) ! q) \<noteq> Unsettled"
    by blast
  from Cons.IH[OF i1 r] obtain es2 where i2: "tasks_inv c'"
    and e2: "run_events E es2 (loader c1) = Some (loader c')"
    and s2: "\<forall>q r. Settle q r \<in> set es2 \<longrightarrow>
                 q < length (promises (loader c')) \<and> snd (promises (loader c') ! q) \<noteq> Unsettled"
    by blast
  have "run_events E (es1 @ es2) (loader c) = Some (loader c')"
    using e1 e2 by (simp add: run_events_append)
  moreover have "q < length (promises (loader c')) \<and> snd (promises (loader c') ! q) \<noteq> Unsettled"
    if "Settle q r \<in> set (es1 @ es2)" for q r
  proof (cases "Settle q r \<in> set es1")
    case True
    with s1 have "q < length (promises (loader c1))" "snd (promises (loader c1) ! q) \<noteq> Unsettled"
      by blast+
    from settled_run[OF this e2] this(2) show ?thesis by simp
  next
    case False
    with that s2 show ?thesis by auto
  qed
  ultimately show ?case using i2 by blast
qed

lemma promises_grow_event:
  "apply_event E e s = Some s' \<Longrightarrow> length (promises s) \<le> length (promises s')"
proof (cases e)
  case (Call u st)
  assume "apply_event E e s = Some s'"
  with Call front_promises[of E u st s] show ?thesis by auto
qed (auto simp: run_cleanup_def split: if_splits)






lemma waits_for_blocked:
  assumes "waits_for c p q" and "q < length (promises (loader c))"
    and "snd (promises (loader c) ! q) = Unsettled"
  shows "advance E p c = None"
  using assms
  by (auto simp: waits_for_def advance_def await_promise_def split: option.splits pc.splits)

lemma waits_for_kept:
  assumes "waits_for c p q" and "tasks c' p = tasks c p"
  shows "waits_for c' p q"
  using assms by (simp add: waits_for_def)

lemma deadlocked_step:
  assumes d: "deadlocked c p q" and st: "step E a c = Some c'"
  shows "deadlocked c' p q"
proof -
  from d have pl: "p < length (promises (loader c))" and ql: "q < length (promises (loader c))"
    and pu: "snd (promises (loader c) ! p) = Unsettled" and qu: "snd (promises (loader c) ! q) = Unsettled"
    and wp: "waits_for c p q" and wq: "waits_for c q p"
    by (simp_all add: deadlocked_def)
  have req: "deadlocked (snd (request E u stk c)) p q" for u stk
  proof -
    from front_promises[of E u stk "loader c"] obtain ps where
      ps: "promises (snd (ssrLoadModule_front E u stk (loader c))) = promises (loader c) @ ps"
      and sh: "(case fst (ssrLoadModule_front E u stk (loader c)) of
           Started w \<Rightarrow> w = length (promises (loader c)) \<and> ps = [(unwrapId E u, Unsettled)]
         | _ \<Rightarrow> ps = [])" by blast
    from sh pl ql have "tasks (snd (request E u stk c)) p = tasks c p"
      "tasks (snd (request E u stk c)) q = tasks c q"
      by (auto simp: request_tasks split: front.splits)
    with wp wq pl ql pu qu ps show ?thesis
      by (simp add: deadlocked_def waits_for_def nth_append)
  qed
  show ?thesis
  proof (cases a)
    case (Request u stk)
    with st req[of u stk] show ?thesis by auto
  next
    case (React w u)
    with st d show ?thesis
      by (auto simp: deadlocked_def waits_for_def run_cleanup_def split: if_splits)
  next
    case (Advance x)
    with st have adv: "advance E x c = Some c'" by simp
    from adv waits_for_blocked[OF wp ql qu, of E] have xp: "x \<noteq> p" by auto
    from adv waits_for_blocked[OF wq pl pu, of E] have xq: "x \<noteq> q" by auto
    from advance_shape[OF adv] obtain t where
      sh: "(\<exists>l y. l \<noteq> Ended \<and> same_protocol y (loader c) \<and> c' = goto x t l (c\<lparr> loader := y \<rparr>)) \<or>
        (\<exists>r y. (\<forall>w. r \<noteq> Awaiting w) \<and> same_protocol y (loader c) \<and>
               c' = finish_task x t r (c\<lparr> loader := y \<rparr>)) \<or>
        (\<exists>r y. (\<forall>w. r \<noteq> Awaiting w) \<and> same_protocol y (loader c) \<and>
               c' = finish_task x t r (c\<lparr> loader := y, evaluated := evaluated c @ [t_url t] \<rparr>)) \<or>
        (\<exists>dep l. l \<noteq> Ended \<and> c' = goto x t l (snd (request E dep (t_stack t @ [t_url t]) c)))"
      by blast
    from sh show ?thesis
    proof (elim disjE exE conjE)
      fix dep l assume c': "c' = goto x t l (snd (request E dep (t_stack t @ [t_url t]) c))"
      from req[of dep "t_stack t @ [t_url t]"] xp xq show ?thesis
        by (simp add: c' deadlocked_def waits_for_def)
    qed (use d xp xq in \<open>auto simp: deadlocked_def waits_for_def same_protocol_def settle_other\<close>)
  qed
qed

lemma deadlocked_run:
  assumes "deadlocked c p q" and "run E as c = Some c'"
  shows "deadlocked c' p q"
  using assms
  by (induction as arbitrary: c) (auto split: option.splits dest: deadlocked_step)

lemma promise_url_event:
  assumes "q < length (promises s)" and "apply_event E e s = Some s'"
  shows "fst (promises s' ! q) = fst (promises s ! q)"
proof (cases e)
  case (Call u st)
  with assms front_promises[of E u st s] show ?thesis by (auto simp: nth_append)
next
  case (Settle p r)
  with assms show ?thesis by (auto split: if_splits)
qed (use assms in \<open>auto simp: run_cleanup_def split: if_splits\<close>)

lemma promise_url_run:
  assumes "q < length (promises s)" and "run_events E es s = Some s'"
  shows "fst (promises s' ! q) = fst (promises s ! q)"
  using assms
proof (induction es arbitrary: s)
  case Nil
  then show ?case by simp
next
  case (Cons e es)
  from Cons.prems(2) obtain s1 where e: "apply_event E e s = Some s1" and r: "run_events E es s1 = Some s'"
    by (auto split: option.splits)
  from promises_grow_event[OF e] Cons.prems(1) have "q < length (promises s1)" by simp
  from Cons.IH[OF this r] promise_url_event[OF Cons.prems(1) e] show ?case by simp
qed



lemmas demo_defs = demoEnv_def demoState_def demoTransform_def exampleEnv_def legacyHeap_def
  rethrow_def finish_def ssrLoadModule_front_def ensureEntryFromUrl_def instantiateModule_body_def
  already_instantiated_def transform_result_of_def assign_namespace_def evaluateModule_def
  newNamespace_def isExternal_def ssrImport_def nodeRequire_def resolve_def cache_key_def
  importer_text_def ssrExportAll_def defineProperty_def assignProp_def freeze_def isFrozen_def
  settle_def run_cleanup_def await_promise_def namespace_value_def catch_block_def trap_refused_def
  key_order_def array_index_def is_digit_def Let_def js_get_pos forInKeys_pos own_property_pos

lemma some_the: "map_option fst X = Some r \<Longrightarrow> X = Some (r, snd (the X))"
  by (cases X) auto

lemma nested_cycle_example:
  "ssrLoadModule (Suc 0) exampleEnv ''/@id//a.js'' [''/a.js'', ''/b.js''] exampleState =
     Some (Returned (Ref 0), exampleState) \<and>
   map_option (\<lambda>(r, s). (r, js_get 2 (st_heap s) 2 (KStr ''got''), promises s))
     (ssrLoadModule (Suc (Suc (Suc 0))) demoEnv ''/a.js'' [] demoState) =
     Some (Returned (Ref 1), Inr (Ref 1),
           [(''/a.js'', Fulfilled (Ref 1)), (''/b.js'', Fulfilled (Ref 2))])"
proof -
  have u: "unwrapId exampleEnv ''/@id//a.js'' = ''/a.js''" by (simp add: exampleEnv_def)
  have m: "unwrapId exampleEnv ''/@id//a.js'' \<in> set [''/a.js'', ''/b.js'']" by (simp add: u)
  have e: "ensureEntryFromUrl exampleEnv ''/a.js'' exampleState =
     (\<lparr> mod_url = ''/a.js'', mod_file = Some ''/r/a.js'', mod_ssrTransformResult = None,
        mod_ssrModule = Some 0 \<rparr>, exampleState)"
    by (rule ensure_idem) (simp add: exampleState_def)
  have "ssrLoadModule (Suc 0) exampleEnv ''/@id//a.js'' [''/a.js'', ''/b.js''] exampleState =
     Some (Returned (Ref 0), exampleState)"
    using nested_cycle_safe[OF m, of 0 exampleState, THEN conjunct1]
    unfolding u e by (simp add: namespace_value_def)
  moreover have "map_option (\<lambda>(r, s). (r, js_get 2 (st_heap s) 2 (KStr ''got''), promises s))
     (ssrLoadModule (Suc (Suc (Suc 0))) demoEnv ''/a.js'' [] demoState) =
     Some (Returned (Ref 1), Inr (Ref 1),
           [(''/a.js'', Fulfilled (Ref 1)), (''/b.js'', Fulfilled (Ref 2))])"
    by (simp add: demo_defs)
  ultimately show ?thesis by simp
qed

lemma loadedState_facts:
  "urlToModuleMap loadedState ''/a.js'' =
     Some \<lparr> mod_url = ''/a.js'', mod_file = Some ''/a.js'', mod_ssrTransformResult = None,
            mod_ssrModule = Some 1 \<rparr>"
  "isFrozen (st_heap loadedState) 1"
  "pendingModules loadedState ''/a.js'' = None"
  "promises loadedState = [(''/a.js'', Fulfilled (Ref 1)), (''/b.js'', Fulfilled (Ref 2))]"
  by (simp_all add: loadedState_def numeral_3_eq_3 numeral_2_eq_2 demo_defs)

theorem load_idempotent_witness:
  "map_option fst (ssrLoadModule 3 demoEnv ''/a.js'' [] demoState) = Some (Returned (Ref 1)) \<and>
   frozen_at loadedState ''/a.js'' 1 \<and>
   instantiateModule 0 demoEnv ''/a.js'' [] loadedState = Some (Returned (Ref 1), loadedState) \<and>
   (\<exists>s'. ssrLoadModule (Suc 0) demoEnv ''/a.js'' [] loadedState = Some (Returned (Ref 1), s') \<and>
         st_heap s' = st_heap loadedState \<and> urlToModuleMap s' = urlToModuleMap loadedState \<and>
         pendingModules s' = pendingModules loadedState \<and>
         resolveCache s' = resolveCache loadedState \<and>
         promises s' = promises loadedState @ [(''/a.js'', Fulfilled (Ref 1))]) \<and>
   map_option fst (ssrLoadModule (Suc 0) demoEnv ''/c.js'' [] loadedState) = Some (Threw (Error ''boom'')) \<and>
   frozen_at (snd (the (ssrLoadModule (Suc 0) demoEnv ''/c.js'' [] loadedState))) ''/a.js'' 1"
proof -
  have u: "unwrapId demoEnv ''/a.js'' = ''/a.js''" by (simp add: demoEnv_def exampleEnv_def)
  have fa: "frozen_at loadedState (unwrapId demoEnv ''/a.js'') 1"
    unfolding u using loadedState_facts(2) by (simp add: frozen_at_def loadedState_facts(1))
  have l: "map_option fst (ssrLoadModule 3 demoEnv ''/a.js'' [] demoState) = Some (Returned (Ref 1))"
    by (simp add: numeral_3_eq_3 numeral_2_eq_2 demo_defs)
  have l0: "ssrLoadModule 3 demoEnv ''/a.js'' [] demoState = Some (Returned (Ref 1), loadedState)"
    unfolding loadedState_def by (rule some_the[OF l])
  have c: "map_option fst (ssrLoadModule (Suc 0) demoEnv ''/c.js'' [] loadedState) = Some (Threw (Error ''boom''))"
    by (simp add: loadedState_def numeral_3_eq_3 numeral_2_eq_2 demo_defs)
  note t = load_idempotent[OF fa, of 0 "[]", unfolded u]
  have d: "pendingModules demoState ''/a.js'' = None" by (simp add: demoState_def)
  from t[THEN conjunct2, THEN conjunct2, THEN conjunct2, THEN conjunct2, THEN conjunct1,
         rule_format, OF some_the[OF c]]
  have k: "frozen_at (snd (the (ssrLoadModule (Suc 0) demoEnv ''/c.js'' [] loadedState))) ''/a.js'' 1" .
  from t[THEN conjunct2, THEN conjunct2, THEN conjunct2, THEN conjunct2, THEN conjunct2,
         rule_format, of "[]" demoState 3 "Ref 1"] d l0
  have "Ref 1 = (Ref 1 :: js_value)" by simp
  from t l c k fa loadedState_facts(3) show ?thesis unfolding u by simp
qed

theorem load_failure_contract_witness:
  "map_option fst (ssrLoadModule (Suc 0) demoEnv ''/d.js'' [] demoState) =
     Some (Threw (Error ''failed to load module for ssr: /d.js'')) \<and>
   await_promise (snd (the (ssrLoadModule (Suc 0) demoEnv ''/d.js'' [] demoState))) 0 =
     Threw (Error ''failed to load module for ssr: /d.js'') \<and>
   pendingModules (snd (the (ssrLoadModule (Suc 0) demoEnv ''/d.js'' [] demoState))) ''/d.js'' = None \<and>
   fst (ssrLoadModule_front demoEnv ''/d.js'' []
          (snd (the (ssrLoadModule (Suc 0) demoEnv ''/d.js'' [] demoState)))) = Started 1 \<and>
   effective_transform demoEnv demoState ''/e.js'' = Inl (Error ''transform failed'') \<and>
   map_option fst (ssrLoadModule (Suc 0) demoEnv ''/e.js'' [] demoState) =
     Some (Threw (Error ''transform failed'')) \<and>
   await_promise (snd (the (ssrLoadModule (Suc 0) demoEnv ''/e.js'' [] demoState))) 0 =
     Threw (Error ''transform failed'') \<and>
   fst (runBody (Throw (Error ''boom'')) demoEnv ''/c.js'' 1 demoState) = Some (Error ''boom'') \<and>
   map_option fst (ssrLoadModule (Suc 0) demoEnv ''/c.js'' [] demoState) = Some (Threw (Error ''boom'')) \<and>
   await_promise (snd (the (ssrLoadModule (Suc 0) demoEnv ''/c.js'' [] demoState))) 0 =
     Threw (Error ''boom'') \<and>
   map_option fst (ssrLoadModule (Suc (Suc 0)) demoEnv ''/f.js'' [] demoState) =
     Some (Threw (Error ''boom'')) \<and>
   await_promise (snd (the (ssrLoadModule (Suc (Suc 0)) demoEnv ''/f.js'' [] demoState))) 0 =
     Threw (Error ''boom'')"
proof -
  have u: "unwrapId demoEnv x = x" if "take 5 x \<noteq> ''/@id/''" for x
    using that by (simp add: demoEnv_def exampleEnv_def)
  have ud: "unwrapId demoEnv ''/d.js'' = ''/d.js''" and ue: "unwrapId demoEnv ''/e.js'' = ''/e.js''"
    and uc: "unwrapId demoEnv ''/c.js'' = ''/c.js''" and uf: "unwrapId demoEnv ''/f.js'' = ''/f.js''"
    by (simp_all add: u)
  have a1: "unwrapId demoEnv x \<notin> set []" for x by simp
  have a2: "pendingModules demoState (unwrapId demoEnv x) = None" for x by (simp add: demoState_def)
  have ld: "map_option fst (ssrLoadModule (Suc 0) demoEnv ''/d.js'' [] demoState) =
     Some (Threw (Error ''failed to load module for ssr: /d.js''))"
    by (simp add: demo_defs)
  have le: "map_option fst (ssrLoadModule (Suc 0) demoEnv ''/e.js'' [] demoState) =
     Some (Threw (Error ''transform failed''))"
    by (simp add: demo_defs)
  have lc: "map_option fst (ssrLoadModule (Suc 0) demoEnv ''/c.js'' [] demoState) = Some (Threw (Error ''boom''))"
    by (simp add: demo_defs)
  have lf: "map_option fst (ssrLoadModule (Suc (Suc 0)) demoEnv ''/f.js'' [] demoState) =
     Some (Threw (Error ''boom''))"
    by (simp add: demo_defs)
  have a4: "\<forall>q. Threw e \<noteq> Awaiting q" for e by simp
  have len: "length (promises (snd (the (ssrLoadModule (Suc 0) demoEnv ''/d.js'' [] demoState)))) = 1"
    "length (promises demoState) = 0"
    by (simp_all add: demo_defs)
  have te: "effective_transform demoEnv demoState ''/e.js'' = Inl (Error ''transform failed'')"
    by (simp add: effective_transform_def cached_of_def demoState_def demoEnv_def demoTransform_def)
  have rb: "fst (runBody (Throw (Error ''boom'')) demoEnv ''/c.js'' 1 demoState) = Some (Error ''boom'')"
    by simp
  note td = load_failure_contract[OF a1 a2 some_the[OF ld] a4]
  note tE = load_failure_contract[OF a1 a2 some_the[OF le] a4]
  note tc = load_failure_contract[OF a1 a2 some_the[OF lc] a4]
  note tf = load_failure_contract[OF a1 a2 some_the[OF lf] a4]
  from td tE tc tf ld le lc lf te rb show ?thesis
    unfolding ud ue uc uf len by simp
qed

theorem loadDeps_internal_in_order_witness:
  "filter internal_specifier [''leftpad'', ''/b.js'', ''./c.js'', ''''] = [''/b.js'', ''./c.js''] \<and>
   isExternal ''leftpad'' \<and> \<not> isExternal ''/b.js'' \<and>
   loadDeps (ssrLoadModule 2 demoEnv) ''/a.js'' [] [''leftpad'', ''/b.js''] demoState =
     load_in_order (ssrLoadModule 2 demoEnv) [''/a.js''] [''/b.js''] demoState"
proof -
  have e: "ensureEntryFromUrl demoEnv ''/a.js'' demoState =
     (fst (ensureEntryFromUrl demoEnv ''/a.js'' demoState), snd (ensureEntryFromUrl demoEnv ''/a.js'' demoState))"
    by simp
  have na: "\<not> already_instantiated (fst (ensureEntryFromUrl demoEnv ''/a.js'' demoState))
        (snd (ensureEntryFromUrl demoEnv ''/a.js'' demoState))"
    by (simp add: demo_defs)
  have t: "transform_result_of demoEnv ''/a.js'' (fst (ensureEntryFromUrl demoEnv ''/a.js'' demoState)) =
     Inr (Some \<lparr> code =
                      Import ''leftpad'' (rethrow (\<lambda>pad.
                        Assign ''pad'' pad
                          (Assign ''x'' (Num 1)
                             (Import ''/b.js'' (rethrow (\<lambda>b. ExportAll b finish)))))),
                    deps = [''leftpad'', ''/b.js''] \<rparr>)"
    by (simp add: demoEnv_def exampleEnv_def demoState_def demoTransform_def ensureEntryFromUrl_def
          transform_result_of_def Let_def)
  note th = loadDeps_internal_in_order[OF e na t, of "ssrLoadModule 2 demoEnv" "[]"]
  have f: "filter internal_specifier [''leftpad'', ''/b.js'', ''./c.js'', ''''] = [''/b.js'', ''./c.js'']"
    "filter internal_specifier [''leftpad'', ''/b.js''] = [''/b.js'']"
    by (simp_all add: internal_specifier_def)
  from th[THEN conjunct1, rule_format, of "''leftpad''"] th[THEN conjunct1, rule_format, of "''/b.js''"]
       th[THEN conjunct2, THEN conjunct1, rule_format, of "[''leftpad'', ''/b.js'']" demoState] f
  show ?thesis by (simp add: internal_specifier_def)
qed

lemmas task_defs = quietDemo_def concurrentCycle_def soloRun_def advance_def request_def goto_def
  finish_task_def waits_for_def deadlocked_def runs_of_def in_flight_def



lemma concurrentCycle_deadlocks:
  "run demoEnv concurrentCycle quietDemo \<noteq> None"
  "deadlocked (the (run demoEnv concurrentCycle quietDemo)) 0 1"
  by (simp_all add: task_defs demo_defs)

lemma concurrentCycle_urls:
  "fst (promises (loader (the (run demoEnv concurrentCycle quietDemo))) ! 0) = ''/a.js''"
  "fst (promises (loader (the (run demoEnv concurrentCycle quietDemo))) ! 1) = ''/b.js''"
  by (simp_all add: task_defs demo_defs)

text \<open>
  C2 fails when the two modules of a cycle are requested at once. In the server of the
  example \<^verbatim>\<open>/a.js\<close> imports \<^verbatim>\<open>/b.js\<close> and \<^verbatim>\<open>/b.js\<close> imports \<^verbatim>\<open>/a.js\<close>. After the steps of
  \<open>concurrentCycle\<close> the instantiation of \<^verbatim>\<open>/a.js\<close> waits at line 80 for the promise of \<^verbatim>\<open>/b.js\<close>,
  which line 38 handed it because \<^verbatim>\<open>/b.js\<close> is pending and not on its call stack, and the
  instantiation of \<^verbatim>\<open>/b.js\<close> waits for the promise of \<^verbatim>\<open>/a.js\<close> likewise. Whatever
  happens next, neither promise is ever settled: the loads do not terminate, and every later
  request for either module joins a promise that stays unsettled.
\<close>

theorem concurrent_cycle_never_settles:
  assumes "run demoEnv (concurrentCycle @ as) quietDemo = Some c"
  shows "await_promise (loader c) 0 = Awaiting 0 \<and> await_promise (loader c) 1 = Awaiting 1 \<and>
         waits_for c 0 1 \<and> waits_for c 1 0 \<and>
         fst (request demoEnv ''/a.js'' [] c) = Joined 0 \<and>
         fst (request demoEnv ''/b.js'' [] c) = Joined 1"
proof -
  from concurrentCycle_deadlocks(1) obtain cd where cd: "run demoEnv concurrentCycle quietDemo = Some cd"
    by auto
  with concurrentCycle_deadlocks(2) have d: "deadlocked cd 0 1" by simp
  from assms cd have r: "run demoEnv as cd = Some c" by (simp add: run_append)
  with d have d': "deadlocked c 0 1" by (rule deadlocked_run)
  have q: "quiet quietDemo" by (simp add: quiet_def idle_def quietDemo_def demoState_def)
  from run_simulated[OF quiet_inv[OF q] cd] have icd: "tasks_inv cd" by simp
  from run_simulated[OF icd r] obtain es where ic: "tasks_inv c"
    and es: "run_events demoEnv es (loader cd) = Some (loader c)" by blast
  from d have l: "0 < length (promises (loader cd))" "1 < length (promises (loader cd))"
    by (simp_all add: deadlocked_def)
  from promise_url_run[OF l(1) es] promise_url_run[OF l(2) es] concurrentCycle_urls cd
  have u: "fst (promises (loader c) ! 0) = ''/a.js''" "fst (promises (loader c) ! 1) = ''/b.js''"
    by simp_all
  from ic have pi: "pending_inv (loader c)" by (simp add: tasks_inv_def)
  from d' have dl: "0 < length (promises (loader c))" "1 < length (promises (loader c))"
    "snd (promises (loader c) ! 0) = Unsettled" "snd (promises (loader c) ! 1) = Unsettled"
    by (simp_all add: deadlocked_def)
  from pi dl(1,3) have "pendingModules (loader c) (fst (promises (loader c) ! 0)) = Some 0"
    unfolding pending_inv_def by blast
  with u have pa: "pendingModules (loader c) ''/a.js'' = Some 0" by simp
  from pi dl(2,4) have "pendingModules (loader c) (fst (promises (loader c) ! 1)) = Some 1"
    unfolding pending_inv_def by blast
  with u have pb: "pendingModules (loader c) ''/b.js'' = Some 1" by simp
  have ua: "unwrapId demoEnv ''/a.js'' = ''/a.js''" and ub: "unwrapId demoEnv ''/b.js'' = ''/b.js''"
    by (simp_all add: demoEnv_def exampleEnv_def)
  have ja: "fst (request demoEnv ''/a.js'' [] c) = Joined 0"
    using front_joined[of demoEnv "''/a.js''" "[]" "loader c" 0] pa ua by simp
  have jb: "fst (request demoEnv ''/b.js'' [] c) = Joined 1"
    using front_joined[of demoEnv "''/b.js''" "[]" "loader c" 1] pb ub by simp
  from d' ja jb show ?thesis by (simp add: deadlocked_def await_promise_def)
qed

theorem concurrent_cycle_never_settles_witness:
  "map_option (\<lambda>c. (await_promise (loader c) 0, await_promise (loader c) 1,
                     fst (request demoEnv ''/a.js'' [] c)))
     (run demoEnv (concurrentCycle @ [Request ''/b.js'' [], Request ''/a.js'' []]) quietDemo) =
     Some (Awaiting 0, Awaiting 1, Joined 0) \<and>
   run demoEnv (concurrentCycle @ [Advance 0]) quietDemo = None \<and>
   run demoEnv (concurrentCycle @ [Advance 1]) quietDemo = None \<and>
   map_option fst (ssrLoadModule (Suc (Suc (Suc 0))) demoEnv ''/a.js'' [] demoState) =
     Some (Returned (Ref 1))"
proof -
  let ?as = "[Request ''/b.js'' [], Request ''/a.js'' []]"
  have n: "run demoEnv (concurrentCycle @ [Advance 0]) quietDemo = None"
    "run demoEnv (concurrentCycle @ [Advance 1]) quietDemo = None"
    by (simp_all add: task_defs demo_defs)
  have "run demoEnv (concurrentCycle @ ?as) quietDemo \<noteq> None"
    by (simp add: task_defs demo_defs)
  then obtain c where c: "run demoEnv (concurrentCycle @ ?as) quietDemo = Some c" by auto
  have l: "map_option fst (ssrLoadModule (Suc (Suc (Suc 0))) demoEnv ''/a.js'' [] demoState) =
     Some (Returned (Ref 1))"
    by (simp add: demo_defs)
  from concurrent_cycle_never_settles[OF c] c n l show ?thesis by simp
qed

end
